theory Spec2Isabelle
  imports Complex_Main "HOL-Library.Multiset"
begin

section \<open>The sliding-window LD pruning of prune\_ld.c\<close>

text \<open>
  The development embeds \<^verbatim>\<open>estR2\<close>, \<^verbatim>\<open>estLD\<close> and the body of \<^verbatim>\<open>readVcf\<close> of
  \<^verbatim>\<open>src/prune_ld.c\<close>; \<^verbatim>\<open>src/poly_freq.c\<close> holds the same three functions (its
  \<^verbatim>\<open>estR2\<close> and \<^verbatim>\<open>estLD\<close> are character for character the same).

  Conventions of the embedding:
  \<^item> a C \<^verbatim>\<open>double\<close> that can be a result of a division or a square root is a value of
    \<open>dbl\<close>: a real number, one of the two infinities or NaN, with the special cases of
    IEEE 754 written out. Finite results are exact reals: the accumulators of the program
    hold small integers (sums of dosages and of their products), which a double represents
    exactly; the rounding of the final division and square root is not modelled.
  \<^item> a \<^verbatim>\<open>geno\<close> array is a list of the entries written since the last \<^verbatim>\<open>memset\<close>; the
    entries behind it are the zeros that \<^verbatim>\<open>memset\<close> left (\<open>geno_at\<close>).
  \<^item> a \<^verbatim>\<open>chr\<close> buffer is the C string it holds; \<^verbatim>\<open>chr[0] = '\0'\<close> makes it empty.
\<close>

subsection \<open>Doubles with infinities and NaN\<close>

datatype dbl = Fin real | PInf | NInf | NaN

fun dbl_sqrt :: "dbl \<Rightarrow> dbl" where
  "dbl_sqrt (Fin x) = (if x < 0 then NaN else Fin (sqrt x))"
| "dbl_sqrt PInf = PInf"
| "dbl_sqrt NInf = NaN"
| "dbl_sqrt NaN = NaN"

fun dbl_div :: "dbl \<Rightarrow> dbl \<Rightarrow> dbl" where
  "dbl_div NaN _ = NaN"
| "dbl_div _ NaN = NaN"
| "dbl_div (Fin x) (Fin y) =
     (if y = 0 then (if x = 0 then NaN else if 0 < x then PInf else NInf) else Fin (x / y))"
| "dbl_div (Fin x) PInf = Fin 0"
| "dbl_div (Fin x) NInf = Fin 0"
| "dbl_div PInf (Fin y) = (if 0 \<le> y then PInf else NInf)"
| "dbl_div NInf (Fin y) = (if 0 \<le> y then NInf else PInf)"
| "dbl_div PInf PInf = NaN"
| "dbl_div PInf NInf = NaN"
| "dbl_div NInf PInf = NaN"
| "dbl_div NInf NInf = NaN"

fun dbl_mult :: "dbl \<Rightarrow> dbl \<Rightarrow> dbl" where
  "dbl_mult NaN _ = NaN"
| "dbl_mult _ NaN = NaN"
| "dbl_mult (Fin x) (Fin y) = Fin (x * y)"
| "dbl_mult (Fin x) PInf = (if x = 0 then NaN else if 0 < x then PInf else NInf)"
| "dbl_mult (Fin x) NInf = (if x = 0 then NaN else if 0 < x then NInf else PInf)"
| "dbl_mult PInf (Fin y) = (if y = 0 then NaN else if 0 < y then PInf else NInf)"
| "dbl_mult NInf (Fin y) = (if y = 0 then NaN else if 0 < y then NInf else PInf)"
| "dbl_mult PInf PInf = PInf"
| "dbl_mult PInf NInf = NInf"
| "dbl_mult NInf PInf = NInf"
| "dbl_mult NInf NInf = PInf"

text \<open>The comparisons \<^verbatim>\<open>a > b\<close> and \<^verbatim>\<open>a < b\<close> of C: false as soon as one side is NaN.\<close>

fun dbl_gt :: "dbl \<Rightarrow> dbl \<Rightarrow> bool" where
  "dbl_gt NaN _ = False"
| "dbl_gt _ NaN = False"
| "dbl_gt (Fin x) (Fin y) = (y < x)"
| "dbl_gt (Fin x) PInf = False"
| "dbl_gt (Fin x) NInf = True"
| "dbl_gt PInf (Fin y) = True"
| "dbl_gt PInf PInf = False"
| "dbl_gt PInf NInf = True"
| "dbl_gt NInf _ = False"

definition dbl_lt :: "dbl \<Rightarrow> dbl \<Rightarrow> bool" where
  "dbl_lt a b = dbl_gt b a"

subsection \<open>The window slots\<close>

text \<open>
  \<^verbatim>\<open>SNP_s\<close>: position, decision state \<^verbatim>\<open>ok\<close> (\<open>-1\<close> pending, \<open>0\<close> rejected or already
  printed, \<open>1\<close> kept), the dosage vector and the chromosome name. The fields \<^verbatim>\<open>id\<close>,
  \<^verbatim>\<open>ref\<close>, \<^verbatim>\<open>alt\<close> and \<^verbatim>\<open>hap\<close> of prune\_ld.c are only copied to the output and are left out.
\<close>

record SNP_s =
  pos :: int
  ok :: int
  geno :: "real list"
  chr :: string

definition geno_at :: "real list \<Rightarrow> nat \<Rightarrow> real" where
  "geno_at g i = (if i < length g then g ! i else 0)"

subsection \<open>estR2\<close>

record r2_acc =
  cnt :: int
  sum1 :: real
  sum2 :: real
  sum12 :: real
  sqsum1 :: real
  sqsum2 :: real

text \<open>One round of the loop of \<^verbatim>\<open>estR2\<close>; \<open>cnt\<close> is the variable \<^verbatim>\<open>n\<close>, counted down.\<close>

definition estR2_step :: "real list \<Rightarrow> real list \<Rightarrow> nat \<Rightarrow> r2_acc \<Rightarrow> r2_acc" where
  "estR2_step geno1 geno2 i a =
     (if geno_at geno1 i = - 1 \<or> geno_at geno2 i = - 1 then a\<lparr>cnt := cnt a - 1\<rparr>
      else a\<lparr>sum1 := sum1 a + geno_at geno1 i,
             sum2 := sum2 a + geno_at geno2 i,
             sum12 := sum12 a + geno_at geno1 i * geno_at geno2 i,
             sqsum1 := sqsum1 a + geno_at geno1 i * geno_at geno1 i,
             sqsum2 := sqsum2 a + geno_at geno2 i * geno_at geno2 i\<rparr>)"

definition estR2_sums :: "real list \<Rightarrow> real list \<Rightarrow> nat \<Rightarrow> r2_acc" where
  "estR2_sums geno1 geno2 n =
     fold (estR2_step geno1 geno2) [0..<n]
       \<lparr>cnt = int n, sum1 = 0, sum2 = 0, sum12 = 0, sqsum1 = 0, sqsum2 = 0\<rparr>"

definition r2_num :: "r2_acc \<Rightarrow> real" where
  "r2_num a = real_of_int (cnt a) * sum12 a - sum1 a * sum2 a"

definition r2_den :: "r2_acc \<Rightarrow> real" where
  "r2_den a = (real_of_int (cnt a) * sqsum1 a - sum1 a * sum1 a)
              * (real_of_int (cnt a) * sqsum2 a - sum2 a * sum2 a)"

definition estR2 :: "real list \<Rightarrow> real list \<Rightarrow> nat \<Rightarrow> dbl" where
  "estR2 geno1 geno2 n =
     (let a = estR2_sums geno1 geno2 n;
          r = dbl_div (Fin (r2_num a)) (dbl_sqrt (Fin (r2_den a)))
      in dbl_mult r r)"

text \<open>
  The denominator of the Pearson correlation as the specification words it: over the
  individuals that are missing in neither vector, with the count of those individuals.
\<close>

definition joint :: "real list \<Rightarrow> real list \<Rightarrow> nat \<Rightarrow> (real \<times> real) list" where
  "joint geno1 geno2 n =
     filter (\<lambda>p. fst p \<noteq> - 1 \<and> snd p \<noteq> - 1) (map (\<lambda>i. (geno_at geno1 i, geno_at geno2 i)) [0..<n])"

definition spread :: "real list \<Rightarrow> real" where
  "spread xs = real (length xs) * sum_list (map (\<lambda>x. x * x) xs) - sum_list xs * sum_list xs"

definition pearson_den :: "real list \<Rightarrow> real list \<Rightarrow> nat \<Rightarrow> real" where
  "pearson_den geno1 geno2 n =
     spread (map fst (joint geno1 geno2 n)) * spread (map snd (joint geno1 geno2 n))"

subsection \<open>estLD\<close>

text \<open>
  The inner loop of \<^verbatim>\<open>estLD\<close> for the site \<open>i\<close>, from \<open>j\<close> on: the value of \<^verbatim>\<open>j\<close> when the
  loop is left, which is \<open>win\<close> unless the \<^verbatim>\<open>break\<close> was taken.
\<close>

function estLD_scan :: "SNP_s list \<Rightarrow> nat \<Rightarrow> nat \<Rightarrow> real \<Rightarrow> nat \<Rightarrow> nat \<Rightarrow> nat" where
  "estLD_scan snps win ind_n r2 i j =
     (if j < win then
        (if chr (snps ! j) = [] then estLD_scan snps win ind_n r2 i (Suc j)
         else if chr (snps ! i) \<noteq> chr (snps ! j) then estLD_scan snps win ind_n r2 i (Suc j)
         else if dbl_gt (estR2 (geno (snps ! i)) (geno (snps ! j)) ind_n) (Fin r2) then j
         else estLD_scan snps win ind_n r2 i (Suc j))
      else j)"
  by pat_completeness auto
termination
  by (relation "measure (\<lambda>(snps, win, ind_n, r2, i, j). win - j)") auto

declare estLD_scan.simps [simp del]

definition estLD_site :: "nat \<Rightarrow> nat \<Rightarrow> real \<Rightarrow> nat \<Rightarrow> SNP_s list \<Rightarrow> SNP_s list" where
  "estLD_site win ind_n r2 i snps =
     (if chr (snps ! i) = [] then snps
      else let j = estLD_scan snps win ind_n r2 i (Suc i)
           in if j = win \<and> (ok (snps ! i) = - 1 \<or> ok (snps ! i) = 1)
              then snps[i := (snps ! i)\<lparr>ok := 1\<rparr>]
              else snps[i := (snps ! i)\<lparr>ok := 0\<rparr>])"

definition estLD :: "SNP_s list \<Rightarrow> nat \<Rightarrow> nat \<Rightarrow> real \<Rightarrow> SNP_s list" where
  "estLD snps win ind_n r2 = fold (estLD_site win ind_n r2) [0..<win] snps"

text \<open>
  The decision rule in the words of the specification: a conflict of the site \<open>i\<close> is a
  later active slot on the same chromosome whose \<open>r\<^sup>2\<close> with \<open>i\<close> exceeds the threshold.
\<close>

definition conflict_at :: "SNP_s list \<Rightarrow> nat \<Rightarrow> real \<Rightarrow> nat \<Rightarrow> nat \<Rightarrow> bool" where
  "conflict_at snps ind_n r2 i j =
     (chr (snps ! j) \<noteq> [] \<and> chr (snps ! j) = chr (snps ! i) \<and>
      dbl_gt (estR2 (geno (snps ! i)) (geno (snps ! j)) ind_n) (Fin r2))"

definition conflict :: "SNP_s list \<Rightarrow> nat \<Rightarrow> nat \<Rightarrow> real \<Rightarrow> nat \<Rightarrow> bool" where
  "conflict snps win ind_n r2 i = (\<exists>j \<in> {Suc i..<win}. conflict_at snps ind_n r2 i j)"

definition decision :: "SNP_s list \<Rightarrow> nat \<Rightarrow> nat \<Rightarrow> real \<Rightarrow> nat \<Rightarrow> int" where
  "decision snps win ind_n r2 i =
     (if \<not> conflict snps win ind_n r2 i \<and> (ok (snps ! i) = - 1 \<or> ok (snps ! i) = 1) then 1 else 0)"

text \<open>Two windows that differ at most in the decision states of their slots.\<close>

definition same_data :: "SNP_s list \<Rightarrow> SNP_s list \<Rightarrow> bool" where
  "same_data s t =
     (length s = length t \<and>
      (\<forall>k < length t. chr (s ! k) = chr (t ! k) \<and> geno (s ! k) = geno (t ! k)
                       \<and> pos (s ! k) = pos (t ! k)))"

text \<open>
  A sequence of evaluator calls, each with its own arguments; before each call the driver
  may have overwritten one slot \<open>k\<close> with a new site \<open>s\<close>.
\<close>

fun eval_run :: "(nat \<times> SNP_s \<times> nat \<times> nat \<times> real) list \<Rightarrow> SNP_s list \<Rightarrow> SNP_s list" where
  "eval_run [] snps = snps"
| "eval_run ((k, s, win, ind_n, r2) # es) snps = eval_run es (estLD (snps[k := s]) win ind_n r2)"

subsection \<open>Dosage extraction\<close>

text \<open>
  A data row as \<^verbatim>\<open>readVcf\<close> sees it: the chromosome, the position and, for each
  individual, the genotype token \<^verbatim>\<open>hap\<close> (the column cut at the first \<^verbatim>\<open>:\<close> or at the end of
  the line). The run is one without a \<^verbatim>\<open>-sites\<close> file (\<^verbatim>\<open>site_n = 0\<close>).
\<close>

record vcf_line =
  l_chr :: string
  l_pos :: int
  l_haps :: "string list"

text \<open>
  The ways the run ends early: the two \<^verbatim>\<open>exit(EXIT_FAILURE)\<close> of the dosage extraction,
  and the read through the null pointer \<^verbatim>\<open>snps\<close> that the final \<^verbatim>\<open>estLD\<close> makes when the
  input has no data row at all.
\<close>

datatype error = UnsupportedPloidy | UnknownAlleles string int | NullWindow

text \<open>The per-row counters; \<open>t_geno\<close> is \<^verbatim>\<open>snps[win_i].geno[0..ind_i-1]\<close>.\<close>

record tally =
  t_geno :: "real list"
  mis_i :: real
  alt_i :: real
  hap_i :: real

text \<open>The \<^verbatim>\<open>switch\<close> on \<^verbatim>\<open>strlen(hap)\<close>: the ploidy and the last allele offset \<^verbatim>\<open>stop\<close>.\<close>

definition ploidy_stop :: "nat \<Rightarrow> (real \<times> nat) option" where
  "ploidy_stop len =
     (if len = 3 then Some (2, 2)
      else if len = 7 then Some (4, 6)
      else if len = 11 then Some (6, 10)
      else if len = 15 then Some (8, 14)
      else None)"

text \<open>
  The loop \<^verbatim>\<open>for(i = 0; i <= stop; i += 2)\<close> from offset \<open>i\<close> on, on the pair of
  \<^verbatim>\<open>geno[ind_i]\<close> and \<^verbatim>\<open>alt_i\<close>; \<open>None\<close> is the exit for an allele that is not 0 or 1.
\<close>

function read_alleles :: "string \<Rightarrow> nat \<Rightarrow> nat \<Rightarrow> real \<times> real \<Rightarrow> (real \<times> real) option" where
  "read_alleles hap stop i ga =
     (if i \<le> stop then
        (if hap ! i = CHR ''0'' \<or> hap ! i = CHR ''1'' then
           read_alleles hap stop (i + 2)
             (fst ga + real_of_int (of_char (hap ! i) - of_char (CHR ''0'')),
              snd ga + real_of_int (of_char (hap ! i) - of_char (CHR ''0'')))
         else None)
      else Some ga)"
  by pat_completeness auto
termination
  by (relation "measure (\<lambda>(hap, stop, i, ga). Suc stop - i)") auto

declare read_alleles.simps [simp del]

definition read_hap :: "string \<Rightarrow> int \<Rightarrow> string \<Rightarrow> tally \<Rightarrow> error + tally" where
  "read_hap c p hap t =
     (if hap \<noteq> [] \<and> hd hap = CHR ''.'' then
        Inr (t\<lparr>t_geno := t_geno t @ [- 1], mis_i := mis_i t + 1\<rparr>)
      else case ploidy_stop (length hap) of
        None \<Rightarrow> Inl UnsupportedPloidy
      | Some (ploidy, stop) \<Rightarrow>
          (case read_alleles hap stop 0 (0, alt_i t) of
             None \<Rightarrow> Inl (UnknownAlleles c p)
           | Some (g, a) \<Rightarrow>
               Inr (t\<lparr>t_geno := t_geno t @ [g], alt_i := a, hap_i := hap_i t + ploidy\<rparr>)))"

fun read_haps :: "string \<Rightarrow> int \<Rightarrow> string list \<Rightarrow> tally \<Rightarrow> error + tally" where
  "read_haps c p [] t = Inr t"
| "read_haps c p (hap # haps) t =
     (case read_hap c p hap t of Inl e \<Rightarrow> Inl e | Inr t' \<Rightarrow> read_haps c p haps t')"

text \<open>The dosage of a token in the words of the specification.\<close>

definition even_offsets :: "string \<Rightarrow> nat list" where
  "even_offsets hap = filter even [0..<length hap]"

definition count_ones :: "string \<Rightarrow> nat" where
  "count_ones hap = length (filter (\<lambda>i. hap ! i = CHR ''1'') (even_offsets hap))"

definition biallelic :: "string \<Rightarrow> bool" where
  "biallelic hap = (\<forall>i \<in> set (even_offsets hap). hap ! i = CHR ''0'' \<or> hap ! i = CHR ''1'')"

definition is_missing :: "string \<Rightarrow> bool" where
  "is_missing hap = (hap \<noteq> [] \<and> hd hap = CHR ''.'')"

definition bad_token :: "string \<Rightarrow> bool" where
  "bad_token hap = (\<not> is_missing hap \<and> (length hap \<notin> {3, 7, 11, 15} \<or> \<not> biallelic hap))"

subsection \<open>The pre-filters\<close>

datatype verdict = DropMis | DropMaf | Pass

definition prefilter :: "real \<Rightarrow> real \<Rightarrow> tally \<Rightarrow> nat \<Rightarrow> verdict" where
  "prefilter mis maf t n =
     (if dbl_gt (dbl_div (Fin (mis_i t)) (Fin (real n))) (Fin (1 - mis)) \<or> mis_i t = real n
      then DropMis
      else if dbl_lt (dbl_div (Fin (alt_i t)) (Fin (hap_i t))) (Fin maf)
              \<or> dbl_gt (dbl_div (Fin (alt_i t)) (Fin (hap_i t))) (Fin (1 - maf))
      then DropMaf
      else Pass)"

subsection \<open>The stream driver readVcf\<close>

text \<open>
  The variables of \<^verbatim>\<open>readVcf\<close> that live across rows. \<open>printed\<close> is the sequence of
  \<^verbatim>\<open>printOut\<close> calls, each as the chromosome and position it prints. The window size
  \<open>win\<close> is at least 1 and \<open>step\<close> lies between 1 and \<open>win\<close>: \<^verbatim>\<open>openFiles\<close> exits otherwise.
\<close>

record state =
  snps :: "SNP_s list"
  win_n :: nat
  win_i :: nat
  step_i :: nat
  ind_n :: nat
  snp_i :: nat
  printed :: "(string \<times> int) list"

text \<open>
  \<^verbatim>\<open>malloc\<close> leaves the slots indeterminate and the program reads \<^verbatim>\<open>ok\<close> and \<^verbatim>\<open>chr[0]\<close> of
  slots it has not written yet; the model takes the fresh memory to be zero-filled.
\<close>

definition blank :: SNP_s where
  "blank = \<lparr>pos = 0, ok = 0, geno = [], chr = []\<rparr>"

definition init_state :: "nat \<Rightarrow> state" where
  "init_state win =
     \<lparr>snps = replicate win blank, win_n = 0, win_i = 0, step_i = 0, ind_n = 0, snp_i = 0,
      printed = []\<rparr>"

definition print_kept :: "state \<Rightarrow> state" where
  "print_kept st =
     (let s = snps st ! win_i st
      in if ok s = 1
         then st\<lparr>printed := printed st @ [(chr s, pos s)],
                 snps := (snps st)[win_i st := s\<lparr>ok := 0\<rparr>],
                 snp_i := snp_i st + 1\<rparr>
         else st)"

definition advance :: "nat \<Rightarrow> state \<Rightarrow> state" where
  "advance win st = (let w = win_i st + 1 in st\<lparr>win_i := (if w = win then 0 else w)\<rparr>)"

definition flush :: "nat \<Rightarrow> state \<Rightarrow> state" where
  "flush win st = ((\<lambda>s. advance win (print_kept s)) ^^ win) st"

definition evaluate :: "real \<Rightarrow> state \<Rightarrow> state" where
  "evaluate r2 st = st\<lparr>snps := estLD (snps st) (win_n st + 1) (ind_n st) r2\<rparr>"

definition set_slot :: "(SNP_s \<Rightarrow> SNP_s) \<Rightarrow> state \<Rightarrow> state" where
  "set_slot f st = st\<lparr>snps := (snps st)[win_i st := f (snps st ! win_i st)]\<rparr>"

text \<open>The block under \<^verbatim>\<open>k == 2\<close> that handles a change of chromosome.\<close>

definition chr_change :: "nat \<Rightarrow> real \<Rightarrow> string \<Rightarrow> state \<Rightarrow> state" where
  "chr_change win r2 c st =
     (if 0 < win_n st \<and> chr (snps st ! 0) \<noteq> c then
        set_slot (\<lambda>s. s\<lparr>geno := []\<rparr>)
          ((flush win (evaluate r2 st))\<lparr>win_n := 0, win_i := 0, step_i := 0\<rparr>)
      else st)"

definition eval_due :: "nat \<Rightarrow> nat \<Rightarrow> state \<Rightarrow> bool" where
  "eval_due win step st =
     (win_n st = win - 1 \<and> step \<le> step_i st \<or> win = step \<and> win_i st = win - 1)"

text \<open>Placing a row that passed both filters (the end of the loop body).\<close>

definition place :: "nat \<Rightarrow> nat \<Rightarrow> real \<Rightarrow> state \<Rightarrow> state" where
  "place win step r2 st =
     (let st1 = (if eval_due win step st then (evaluate r2 st)\<lparr>step_i := 0\<rparr> else st);
          st2 = (if win_n st1 < win - 1 then st1\<lparr>win_n := win_n st1 + 1\<rparr> else st1);
          st3 = advance win (st2\<lparr>step_i := step_i st2 + 1\<rparr>)
      in if win_n st3 = win - 1 then print_kept st3 else st3)"

text \<open>
  The start of a data row: the \<^verbatim>\<open>memset\<close> of the dosages of the slot under the cursor,
  then under \<^verbatim>\<open>k == 2\<close> the chromosome check and the provisional write of the row into
  the slot. The \<^verbatim>\<open>memset\<close> comes first, so the evaluation at a change of chromosome sees
  that slot with all dosages zero.
\<close>

definition begin_row :: "nat \<Rightarrow> real \<Rightarrow> vcf_line \<Rightarrow> state \<Rightarrow> state" where
  "begin_row win r2 l st =
     set_slot (\<lambda>s. s\<lparr>chr := l_chr l, pos := l_pos l, ok := - 1\<rparr>)
       (chr_change win r2 (l_chr l) (set_slot (\<lambda>s. s\<lparr>geno := []\<rparr>) st))"

text \<open>After the last token: the dosages are in the slot, and the first row fixes \<^verbatim>\<open>ind_n\<close>.\<close>

definition end_tokens :: "tally \<Rightarrow> state \<Rightarrow> state" where
  "end_tokens t st =
     (set_slot (\<lambda>s. s\<lparr>geno := t_geno t\<rparr>) st)
       \<lparr>ind_n := (if ind_n st = 0 then length (t_geno t) else ind_n st)\<rparr>"

definition tombstone :: "state \<Rightarrow> state" where
  "tombstone st = set_slot (\<lambda>s. s\<lparr>chr := []\<rparr>) st"

definition zero_tally :: tally where
  "zero_tally = \<lparr>t_geno = [], mis_i = 0, alt_i = 0, hap_i = 0\<rparr>"

text \<open>One data row. On an error the run ends with what was printed so far.\<close>

definition read_line ::
  "nat \<Rightarrow> nat \<Rightarrow> real \<Rightarrow> real \<Rightarrow> real \<Rightarrow> vcf_line \<Rightarrow> state \<Rightarrow> (error \<times> (string \<times> int) list) + state" where
  "read_line win step mis maf r2 l st =
     (let st2 = begin_row win r2 l st
      in case read_haps (l_chr l) (l_pos l) (l_haps l) zero_tally of
           Inl e \<Rightarrow> Inl (e, printed st2)
         | Inr t \<Rightarrow>
             (let st3 = end_tokens t st2
              in case prefilter mis maf t (ind_n st3) of
                   DropMis \<Rightarrow> Inr (tombstone st3)
                 | DropMaf \<Rightarrow> Inr (tombstone st3)
                 | Pass \<Rightarrow> Inr (place win step r2 st3)))"

fun read_lines ::
  "nat \<Rightarrow> nat \<Rightarrow> real \<Rightarrow> real \<Rightarrow> real \<Rightarrow> vcf_line list \<Rightarrow> state \<Rightarrow> (error \<times> (string \<times> int) list) + state" where
  "read_lines win step mis maf r2 [] st = Inr st"
| "read_lines win step mis maf r2 (l # ls) st =
     (case read_line win step mis maf r2 l st of
        Inl e \<Rightarrow> Inl e
      | Inr st' \<Rightarrow> read_lines win step mis maf r2 ls st')"

definition readVcf ::
  "nat \<Rightarrow> nat \<Rightarrow> real \<Rightarrow> real \<Rightarrow> real \<Rightarrow> vcf_line list \<Rightarrow> (error \<times> (string \<times> int) list) + state" where
  "readVcf win step mis maf r2 ls =
     (if ls = [] then Inl (NullWindow, [])
      else case read_lines win step mis maf r2 ls (init_state win) of
             Inl e \<Rightarrow> Inl e
           | Inr st \<Rightarrow> Inr (flush win (evaluate r2 st)))"

text \<open>The sites a run prints, in the order of printing.\<close>

definition kept :: "(error \<times> (string \<times> int) list) + state \<Rightarrow> (string \<times> int) list" where
  "kept res = (case res of Inl e \<Rightarrow> snd e | Inr st \<Rightarrow> printed st)"

subsection \<open>Example windows\<close>

definition flat_pair :: "SNP_s list" where
  "flat_pair = [\<lparr>pos = 20, ok = - 1, geno = [2, 1, 0], chr = ''1''\<rparr>,
                \<lparr>pos = 30, ok = - 1, geno = [0, 0, 0], chr = ''1''\<rparr>]"

definition trio :: "SNP_s list" where
  "trio = [\<lparr>pos = 10, ok = - 1, geno = [0, 1, 2], chr = ''1''\<rparr>,
           \<lparr>pos = 20, ok = - 1, geno = [2, 1, 0], chr = ''1''\<rparr>,
           \<lparr>pos = 30, ok = - 1, geno = [0, 0, 0], chr = ''1''\<rparr>]"

definition rej_pair :: "SNP_s list" where
  "rej_pair = [\<lparr>pos = 40, ok = - 1, geno = [0, 1, 2], chr = ''1''\<rparr>,
               \<lparr>pos = 20, ok = 0, geno = [2, 1, 0], chr = ''1''\<rparr>]"

definition rej_pair' :: "SNP_s list" where
  "rej_pair' = [\<lparr>pos = 40, ok = - 1, geno = [0, 1, 2], chr = ''1''\<rparr>,
                \<lparr>pos = 20, ok = 1, geno = [2, 1, 0], chr = ''1''\<rparr>]"

definition flat_site :: SNP_s where
  "flat_site = \<lparr>pos = 50, ok = - 1, geno = [0, 0, 0], chr = ''1''\<rparr>"

definition old_pair :: "SNP_s list" where
  "old_pair = [\<lparr>pos = 10, ok = 0, geno = [0, 1, 2], chr = ''1''\<rparr>,
               \<lparr>pos = 20, ok = - 1, geno = [2, 1, 0], chr = ''1''\<rparr>]"

subsection \<open>Example rows and auxiliary notions\<close>

definition evens_from :: "nat \<Rightarrow> nat \<Rightarrow> nat list" where
  "evens_from i m = filter even [i..<m]"

definition row_a :: vcf_line where
  "row_a = \<lparr>l_chr = ''1'', l_pos = 10, l_haps = [''0/0'', ''0/1'', ''1/1'']\<rparr>"

definition row_bad :: vcf_line where
  "row_bad = \<lparr>l_chr = ''1'', l_pos = 20, l_haps = [''1/1'', ''0/2'', ''0/0'']\<rparr>"

definition row_b :: vcf_line where
  "row_b = \<lparr>l_chr = ''1'', l_pos = 20, l_haps = [''1/1'', ''0/1'', ''0/0'']\<rparr>"

definition row_gone :: vcf_line where
  "row_gone = \<lparr>l_chr = ''1'', l_pos = 40, l_haps = [''./.'', ''./.'', ''.'']\<rparr>"

definition row_c :: vcf_line where
  "row_c = \<lparr>l_chr = ''1'', l_pos = 30, l_haps = [''0/0'', ''0/0'', ''0/0'']\<rparr>"

definition step_cycle :: "nat \<Rightarrow> state \<Rightarrow> bool" where
  "step_cycle win st =
     (win_i st < win \<and>
      (win_n st = win_i st \<and> step_i st = win_i st
       \<or> win_n st = win - 1 \<and> step_i st = win_i st + 1))"

definition tally_a :: tally where
  "tally_a = \<lparr>t_geno = [0, 1, 2], mis_i = 0, alt_i = 3, hap_i = 6\<rparr>"

definition tally_b :: tally where
  "tally_b = \<lparr>t_geno = [2, 1, 0], mis_i = 0, alt_i = 3, hap_i = 6\<rparr>"

subsection \<open>Bookkeeping of a run\<close>

text \<open>
  Notions for the bookkeeping of a whole run. A slot is dead when it owes no output
  any more: rejected or printed (\<open>ok = 0\<close>), blank, or a tombstone.
\<close>

definition site :: "SNP_s \<Rightarrow> string \<times> int" where
  "site s = (chr s, pos s)"

definition dead :: "SNP_s \<Rightarrow> bool" where
  "dead s = (ok s = 0 \<or> ok s = - 1 \<and> chr s = [])"

definition wf_slot :: "SNP_s \<Rightarrow> bool" where
  "wf_slot s = (ok s = 0 \<or> ok s = - 1 \<or> ok s = 1 \<and> chr s \<noteq> [])"

text \<open>The sites of the window that are still to be decided or printed.\<close>

definition owed :: "SNP_s list \<Rightarrow> (string \<times> int) multiset" where
  "owed ws = mset (map site (filter (\<lambda>s. \<not> dead s) ws))"

text \<open>A row's locus, its tally and dosages, and whether it passes both filters.\<close>

definition locus :: "vcf_line \<Rightarrow> string \<times> int" where
  "locus l = (l_chr l, l_pos l)"

definition tally_of :: "vcf_line \<Rightarrow> tally" where
  "tally_of l =
     (case read_haps (l_chr l) (l_pos l) (l_haps l) zero_tally of Inl e \<Rightarrow> zero_tally | Inr t \<Rightarrow> t)"

definition dosages :: "vcf_line \<Rightarrow> real list" where
  "dosages l = t_geno (tally_of l)"

definition passes :: "real \<Rightarrow> real \<Rightarrow> nat \<Rightarrow> vcf_line \<Rightarrow> bool" where
  "passes mis maf n l = (prefilter mis maf (tally_of l) n = Pass)"

text \<open>
  An input is quiet when no two rows of one chromosome at different positions have an
  \<open>r\<^sup>2\<close> above the threshold; pairs of rows on different chromosomes are not restricted.
\<close>

definition quiet :: "real \<Rightarrow> nat \<Rightarrow> vcf_line list \<Rightarrow> bool" where
  "quiet r2 n ls =
     (\<forall>a \<in> set ls. \<forall>b \<in> set ls. l_chr a = l_chr b \<and> l_pos a \<noteq> l_pos b \<longrightarrow>
        \<not> dbl_gt (estR2 (dosages a) (dosages b) n) (Fin r2))"

text \<open>What an evaluation without conflicts and the printing do to one slot.\<close>

definition settle :: "SNP_s \<Rightarrow> SNP_s" where
  "settle s = (if chr s = [] then s else s\<lparr>ok := (if ok s = - 1 \<or> ok s = 1 then 1 else 0)\<rparr>)"

definition unkeep :: "SNP_s \<Rightarrow> SNP_s" where
  "unkeep s = (if ok s = 1 then s\<lparr>ok := 0\<rparr> else s)"

definition credit :: "state \<Rightarrow> (string \<times> int) multiset" where
  "credit st = mset (printed st) + owed (snps st)"

text \<open>
  The window holds well-formed slots, every active slot holds the locus and the dosages
  (or the zeroed dosages) of a row seen so far, and no two active slots hold one locus.
\<close>

definition tracked :: "vcf_line list \<Rightarrow> SNP_s list \<Rightarrow> bool" where
  "tracked seen ws =
     ((\<forall>k < length ws. wf_slot (ws ! k)) \<and>
      (\<forall>k < length ws. chr (ws ! k) \<noteq> [] \<longrightarrow>
         (\<exists>l \<in> set seen. site (ws ! k) = locus l \<and> (geno (ws ! k) = [] \<or> geno (ws ! k) = dosages l))) \<and>
      (\<forall>j < length ws. \<forall>k < length ws.
         j \<noteq> k \<and> chr (ws ! j) \<noteq> [] \<and> chr (ws ! k) \<noteq> [] \<longrightarrow> site (ws ! j) \<noteq> site (ws ! k)))"

text \<open>
  The state between two rows: either the window is being filled since the last reset
  and the slots from the cursor on are dead, or it is full, the slot under the cursor is
  dead and the pending sites are among the last \<open>step_i - 1\<close> placed ones.
\<close>

definition phase :: "nat \<Rightarrow> nat \<Rightarrow> state \<Rightarrow> bool" where
  "phase win step st =
     (length (snps st) = win \<and> win_i st < win \<and>
      (win_n st = win_i st \<and> step_i st = win_i st
         \<and> (\<forall>k < win. win_i st \<le> k \<longrightarrow> dead (snps st ! k))
       \<or> win_n st = win - 1 \<and> 1 \<le> step_i st \<and> step_i st \<le> step
         \<and> dead (snps st ! win_i st)
         \<and> (\<forall>k < win. \<not> dead (snps st ! k) \<and> ok (snps st ! k) = - 1 \<longrightarrow>
               (\<exists>d. 1 \<le> d \<and> d < step_i st \<and> (k + d) mod win = win_i st))))"

text \<open>The same with a row written under the cursor and not yet placed.\<close>

definition loaded :: "nat \<Rightarrow> nat \<Rightarrow> state \<Rightarrow> bool" where
  "loaded win step st =
     (length (snps st) = win \<and> win_i st < win
      \<and> ok (snps st ! win_i st) = - 1 \<and> chr (snps st ! win_i st) \<noteq> []
      \<and> (win_n st = win_i st \<and> step_i st = win_i st
           \<and> (\<forall>k < win. win_i st < k \<longrightarrow> dead (snps st ! k))
         \<or> win_n st = win - 1 \<and> 1 \<le> step_i st \<and> step_i st \<le> step
           \<and> (\<forall>k < win. k \<noteq> win_i st \<and> \<not> dead (snps st ! k) \<and> ok (snps st ! k) = - 1 \<longrightarrow>
                 (\<exists>d. 1 \<le> d \<and> d < step_i st \<and> (k + d) mod win = win_i st))))"

text \<open>The invariant of the run, and the rows it is stated for.\<close>

definition run_inv :: "nat \<Rightarrow> nat \<Rightarrow> real \<Rightarrow> real \<Rightarrow> nat \<Rightarrow> vcf_line list \<Rightarrow> state \<Rightarrow> bool" where
  "run_inv win step mis maf N seen st =
     (phase win step st \<and> tracked seen (snps st) \<and> (ind_n st = 0 \<or> ind_n st = N)
      \<and> credit st = mset (map locus (filter (passes mis maf N) seen)))"

definition clean_row :: "nat \<Rightarrow> vcf_line \<Rightarrow> bool" where
  "clean_row N l = (length (l_haps l) = N \<and> l_chr l \<noteq> [] \<and> (\<forall>h \<in> set (l_haps l). \<not> bad_token h))"

text \<open>
  The calls of \<^verbatim>\<open>estR2\<close> that one call of \<^verbatim>\<open>estLD\<close> makes, as the pairs of slot indices in
  the order of the calls: the loops of \<^verbatim>\<open>estLD\<close> again, recording \<open>(i, j)\<close> where the
  program evaluates \<^verbatim>\<open>estR2(snps[i].geno, snps[j].geno, ind_n)\<close>.
\<close>

function estLD_scan_calls :: "SNP_s list \<Rightarrow> nat \<Rightarrow> nat \<Rightarrow> real \<Rightarrow> nat \<Rightarrow> nat \<Rightarrow> (nat \<times> nat) list" where
  "estLD_scan_calls ws win n r2 i j =
     (if j < win then
        (if chr (ws ! j) = [] then estLD_scan_calls ws win n r2 i (Suc j)
         else if chr (ws ! i) \<noteq> chr (ws ! j) then estLD_scan_calls ws win n r2 i (Suc j)
         else if dbl_gt (estR2 (geno (ws ! i)) (geno (ws ! j)) n) (Fin r2) then [(i, j)]
         else (i, j) # estLD_scan_calls ws win n r2 i (Suc j))
      else [])"
  by pat_completeness auto
termination
  by (relation "measure (\<lambda>(ws, win, n, r2, i, j). win - j)") auto

declare estLD_scan_calls.simps [simp del]

definition estLD_site_calls :: "nat \<Rightarrow> nat \<Rightarrow> real \<Rightarrow> nat \<Rightarrow> SNP_s list \<Rightarrow> (nat \<times> nat) list" where
  "estLD_site_calls win n r2 i ws =
     (if chr (ws ! i) = [] then [] else estLD_scan_calls ws win n r2 i (Suc i))"

definition estLD_calls :: "SNP_s list \<Rightarrow> nat \<Rightarrow> nat \<Rightarrow> real \<Rightarrow> (nat \<times> nat) list" where
  "estLD_calls ws win n r2 =
     snd (fold (\<lambda>i (s, tr). (estLD_site win n r2 i s, tr @ estLD_site_calls win n r2 i s))
            [0..<win] (ws, []))"

text \<open>
  Two chromosomes with the same two sites each: within a chromosome the two sites are
  uncorrelated, across the chromosomes the first sites are identical.
\<close>

definition iso_a :: vcf_line where
  "iso_a = \<lparr>l_chr = ''1'', l_pos = 10, l_haps = [''0/0'', ''1/1'', ''0/0'', ''1/1'']\<rparr>"

definition iso_b :: vcf_line where
  "iso_b = \<lparr>l_chr = ''1'', l_pos = 20, l_haps = [''0/0'', ''0/0'', ''1/1'', ''1/1'']\<rparr>"

definition iso_c :: vcf_line where
  "iso_c = \<lparr>l_chr = ''2'', l_pos = 10, l_haps = [''0/0'', ''1/1'', ''0/0'', ''1/1'']\<rparr>"

definition iso_d :: vcf_line where
  "iso_d = \<lparr>l_chr = ''2'', l_pos = 20, l_haps = [''0/0'', ''0/0'', ''1/1'', ''1/1'']\<rparr>"

definition iso_rows :: "vcf_line list" where
  "iso_rows = [iso_a, iso_b, iso_c, iso_d]"

definition mixed :: "SNP_s list" where
  "mixed = [\<lparr>pos = 10, ok = - 1, geno = [0, 2, 0, 2], chr = ''1''\<rparr>,
            \<lparr>pos = 10, ok = - 1, geno = [0, 2, 0, 2], chr = ''2''\<rparr>,
            \<lparr>pos = 20, ok = - 1, geno = [0, 0, 2, 2], chr = ''1''\<rparr>]"

text \<open>A row of five individuals, and a later row that has a single genotype column.\<close>

definition row_five :: vcf_line where
  "row_five = \<lparr>l_chr = ''1'', l_pos = 10, l_haps = [''0/0'', ''0/1'', ''1/1'', ''0/1'', ''0/0'']\<rparr>"

definition row_short :: vcf_line where
  "row_short = \<lparr>l_chr = ''1'', l_pos = 20, l_haps = [''./.'']\<rparr>"

definition tally_five :: tally where
  "tally_five = \<lparr>t_geno = [0, 1, 2, 1, 0], mis_i = 0, alt_i = 4, hap_i = 10\<rparr>"

definition tally_short :: tally where
  "tally_short = \<lparr>t_geno = [- 1], mis_i = 1, alt_i = 0, hap_i = 0\<rparr>"

section \<open>Properties of the correlation estimator\<close>

lemma estR2_fold_char:
  "fold (estR2_step g1 g2) [0..<k] \<lparr>cnt = c, sum1 = 0, sum2 = 0, sum12 = 0, sqsum1 = 0, sqsum2 = 0\<rparr>
   = \<lparr>cnt = c - int k + int (length (joint g1 g2 k)),
      sum1 = sum_list (map fst (joint g1 g2 k)),
      sum2 = sum_list (map snd (joint g1 g2 k)),
      sum12 = sum_list (map (\<lambda>p. fst p * snd p) (joint g1 g2 k)),
      sqsum1 = sum_list (map (\<lambda>p. fst p * fst p) (joint g1 g2 k)),
      sqsum2 = sum_list (map (\<lambda>p. snd p * snd p) (joint g1 g2 k))\<rparr>"
proof (induction k)
  case 0
  show ?case by (simp add: joint_def)
next
  case (Suc k)
  let ?s = "\<lparr>cnt = c, sum1 = 0, sum2 = 0, sum12 = 0, sqsum1 = 0, sqsum2 = 0\<rparr>"
  have "fold (estR2_step g1 g2) [0..<Suc k] ?s
        = estR2_step g1 g2 k (fold (estR2_step g1 g2) [0..<k] ?s)"
    by simp
  also have "\<dots> = estR2_step g1 g2 k
      \<lparr>cnt = c - int k + int (length (joint g1 g2 k)),
      sum1 = sum_list (map fst (joint g1 g2 k)),
      sum2 = sum_list (map snd (joint g1 g2 k)),
      sum12 = sum_list (map (\<lambda>p. fst p * snd p) (joint g1 g2 k)),
      sqsum1 = sum_list (map (\<lambda>p. fst p * fst p) (joint g1 g2 k)),
      sqsum2 = sum_list (map (\<lambda>p. snd p * snd p) (joint g1 g2 k))\<rparr>"
    by (simp only: Suc)
  also have "\<dots> = \<lparr>cnt = c - int (Suc k) + int (length (joint g1 g2 (Suc k))),
      sum1 = sum_list (map fst (joint g1 g2 (Suc k))),
      sum2 = sum_list (map snd (joint g1 g2 (Suc k))),
      sum12 = sum_list (map (\<lambda>p. fst p * snd p) (joint g1 g2 (Suc k))),
      sqsum1 = sum_list (map (\<lambda>p. fst p * fst p) (joint g1 g2 (Suc k))),
      sqsum2 = sum_list (map (\<lambda>p. snd p * snd p) (joint g1 g2 (Suc k)))\<rparr>"
    by (simp add: estR2_step_def joint_def)
  finally show ?case .
qed

lemma estR2_sums_char:
  "estR2_sums g1 g2 n
   = \<lparr>cnt = int (length (joint g1 g2 n)),
      sum1 = sum_list (map fst (joint g1 g2 n)),
      sum2 = sum_list (map snd (joint g1 g2 n)),
      sum12 = sum_list (map (\<lambda>p. fst p * snd p) (joint g1 g2 n)),
      sqsum1 = sum_list (map (\<lambda>p. fst p * fst p) (joint g1 g2 n)),
      sqsum2 = sum_list (map (\<lambda>p. snd p * snd p) (joint g1 g2 n))\<rparr>"
  unfolding estR2_sums_def by (simp add: estR2_fold_char)

lemma spread_Cons:
  "spread (x # xs) = spread xs + sum_list (map (\<lambda>y. (x - y) * (x - y)) xs)"
proof -
  have "sum_list (map (\<lambda>y. (x - y) * (x - y)) xs)
        = real (length xs) * (x * x) - 2 * x * sum_list xs + sum_list (map (\<lambda>y. y * y) xs)"
    by (induction xs) (simp_all add: algebra_simps)
  then show ?thesis
    by (simp add: spread_def algebra_simps)
qed

lemma sq_sum_nonneg: "0 \<le> sum_list (map (\<lambda>y. (x - y) * (x - y)) xs)" for x :: real
  by (induction xs) simp_all

lemma sq_sum_zero:
  "sum_list (map (\<lambda>y. (x - y) * (x - y)) xs) = 0 \<Longrightarrow> y \<in> set xs \<Longrightarrow> y = x" for x :: real
proof (induction xs)
  case Nil
  then show ?case by simp
next
  case (Cons z zs)
  have a: "0 \<le> (x - z) * (x - z)" by simp
  have b: "0 \<le> sum_list (map (\<lambda>y. (x - y) * (x - y)) zs)" by (rule sq_sum_nonneg)
  from Cons.prems(1) have s: "(x - z) * (x - z) + sum_list (map (\<lambda>y. (x - y) * (x - y)) zs) = 0"
    by simp
  from a b s have z1: "(x - z) * (x - z) = 0" and z2: "sum_list (map (\<lambda>y. (x - y) * (x - y)) zs) = 0"
    by linarith+
  from z1 have "z = x" by simp
  with Cons.IH [OF z2] Cons.prems(2) show ?case by auto
qed

lemma spread_nonneg: "0 \<le> spread xs"
proof (induction xs)
  case Nil
  show ?case by (simp add: spread_def)
next
  case (Cons x xs)
  with sq_sum_nonneg [of x xs] show ?case by (simp add: spread_Cons)
qed

lemma spread_zero_const: "spread xs = 0 \<Longrightarrow> y \<in> set xs \<Longrightarrow> y = hd xs"
proof (induction xs arbitrary: y)
  case Nil
  then show ?case by simp
next
  case (Cons x xs)
  have a: "0 \<le> spread xs" by (rule spread_nonneg)
  have b: "0 \<le> sum_list (map (\<lambda>y. (x - y) * (x - y)) xs)" by (rule sq_sum_nonneg)
  from Cons.prems(1) have "spread xs + sum_list (map (\<lambda>y. (x - y) * (x - y)) xs) = 0"
    by (simp add: spread_Cons)
  with a b have z: "sum_list (map (\<lambda>y. (x - y) * (x - y)) xs) = 0" by linarith
  from Cons.prems(2) sq_sum_zero [OF z] show ?case by auto
qed

lemma const_fst_sums:
  "\<forall>p \<in> set ps. fst p = c \<Longrightarrow>
   sum_list (map (\<lambda>p. fst p * snd p) ps) = c * sum_list (map snd ps) \<and>
   sum_list (map fst ps) = real (length ps) * c" for c :: real
  by (induction ps) (simp_all add: algebra_simps)

lemma const_snd_sums:
  "\<forall>p \<in> set ps. snd p = c \<Longrightarrow>
   sum_list (map (\<lambda>p. fst p * snd p) ps) = c * sum_list (map fst ps) \<and>
   sum_list (map snd ps) = real (length ps) * c" for c :: real
  by (induction ps) (simp_all add: algebra_simps)

lemma r2_den_sums: "r2_den (estR2_sums g1 g2 n) = pearson_den g1 g2 n"
  by (simp add: r2_den_def estR2_sums_char pearson_den_def spread_def comp_def)

lemma r2_num_zero:
  assumes "pearson_den g1 g2 n = 0"
  shows "r2_num (estR2_sums g1 g2 n) = 0"
proof -
  define ps where "ps = joint g1 g2 n"
  from assms have "spread (map fst ps) = 0 \<or> spread (map snd ps) = 0"
    by (simp add: pearson_den_def ps_def)
  then show ?thesis
  proof
    assume z: "spread (map fst ps) = 0"
    have "\<forall>p \<in> set ps. fst p = hd (map fst ps)"
      using spread_zero_const [OF z] by auto
    from const_fst_sums [OF this] show ?thesis
      by (simp add: r2_num_def estR2_sums_char ps_def [symmetric])
  next
    assume z: "spread (map snd ps) = 0"
    have "\<forall>p \<in> set ps. snd p = hd (map snd ps)"
      using spread_zero_const [OF z] by auto
    from const_snd_sums [OF this] show ?thesis
      by (simp add: r2_num_def estR2_sums_char ps_def [symmetric])
  qed
qed

lemma pearson_den_nonneg: "0 \<le> pearson_den g1 g2 n"
  by (simp add: pearson_den_def spread_nonneg)

lemma estR2_degenerate: "pearson_den g1 g2 n \<le> 0 \<Longrightarrow> estR2 g1 g2 n = NaN"
proof -
  assume "pearson_den g1 g2 n \<le> 0"
  with pearson_den_nonneg [of g1 g2 n] have z: "pearson_den g1 g2 n = 0" by simp
  show ?thesis
    by (simp add: estR2_def Let_def r2_den_sums z r2_num_zero [OF z])
qed

lemma estR2_gt_iff:
  "dbl_gt (estR2 g1 g2 n) (Fin t) \<longleftrightarrow>
   (0 < pearson_den g1 g2 n \<and>
    t * pearson_den g1 g2 n < r2_num (estR2_sums g1 g2 n) * r2_num (estR2_sums g1 g2 n))"
proof (cases "0 < pearson_den g1 g2 n")
  case True
  then have s: "0 < sqrt (pearson_den g1 g2 n)" by simp
  have "(r2_num (estR2_sums g1 g2 n) / sqrt (pearson_den g1 g2 n)) * (r2_num (estR2_sums g1 g2 n) / sqrt (pearson_den g1 g2 n))
        = r2_num (estR2_sums g1 g2 n) * r2_num (estR2_sums g1 g2 n) / pearson_den g1 g2 n"
    using True by (simp add: power2_eq_square [symmetric] power_divide)
  with True s show ?thesis
    by (simp add: estR2_def Let_def r2_den_sums pos_less_divide_eq)
next
  case False
  with estR2_degenerate [of g1 g2 n] show ?thesis by simp
qed

lemma estR2_gt_sums:
  "dbl_gt (estR2 g1 g2 n) (Fin t) \<longleftrightarrow>
   (0 < r2_den (estR2_sums g1 g2 n) \<and>
    t * r2_den (estR2_sums g1 g2 n) < r2_num (estR2_sums g1 g2 n) * r2_num (estR2_sums g1 g2 n))"
  by (simp add: estR2_gt_iff r2_den_sums)

section \<open>Properties of the window evaluator\<close>

lemma estLD_scan_range_aux:
  "win - j = d \<Longrightarrow> j \<le> win \<Longrightarrow>
   j \<le> estLD_scan ws win n r2 i j \<and> estLD_scan ws win n r2 i j \<le> win"
proof (induction d arbitrary: j)
  case 0
  then have "estLD_scan ws win n r2 i j = j"
    by (subst estLD_scan.simps) simp
  with 0 show ?case by simp
next
  case (Suc d)
  then have lt: "j < win" and d: "win - Suc j = d" and le: "Suc j \<le> win" by simp_all
  from Suc.IH [OF d le]
  have ih: "Suc j \<le> estLD_scan ws win n r2 i (Suc j)" "estLD_scan ws win n r2 i (Suc j) \<le> win"
    by simp_all
  have "estLD_scan ws win n r2 i j = j \<or>
        estLD_scan ws win n r2 i j = estLD_scan ws win n r2 i (Suc j)"
    using lt by (subst (1 2) estLD_scan.simps) simp
  with ih lt show ?case by auto
qed

lemma estLD_scan_range:
  "j \<le> win \<Longrightarrow> j \<le> estLD_scan ws win n r2 i j \<and> estLD_scan ws win n r2 i j \<le> win"
  by (rule estLD_scan_range_aux [OF refl])

lemma estLD_scan_first:
  "j \<le> win \<Longrightarrow> estLD_scan ws win n r2 i j = r \<Longrightarrow>
   (\<forall>k \<in> {j..<r}. \<not> conflict_at ws n r2 i k) \<and> (r < win \<longrightarrow> conflict_at ws n r2 i r)"
proof (induction ws win n r2 i j rule: estLD_scan.induct)
  case (1 ws win n r2 i j)
  show ?case
  proof (cases "j < win")
    case False
    have "estLD_scan ws win n r2 i j = j"
      using False by (subst estLD_scan.simps) simp
    with 1(5) have "r = j" by simp
    with False show ?thesis by simp
  next
    case True
    then have le: "Suc j \<le> win" by simp
    show ?thesis
    proof (cases "conflict_at ws n r2 i j")
      case True
      with \<open>j < win\<close> 1(5) have "r = j"
        by (auto simp add: estLD_scan.simps [of ws win n r2 i j] conflict_at_def)
      with True show ?thesis by simp
    next
      case False
      with \<open>j < win\<close> 1(5) have r: "estLD_scan ws win n r2 i (Suc j) = r"
        by (auto simp add: estLD_scan.simps [of ws win n r2 i j] conflict_at_def split: if_splits)
      have ih: "(\<forall>k \<in> {Suc j..<r}. \<not> conflict_at ws n r2 i k) \<and> (r < win \<longrightarrow> conflict_at ws n r2 i r)"
      proof (cases "chr (ws ! j) = []")
        case True
        from 1(1) [OF \<open>j < win\<close> True le r] show ?thesis .
      next
        case ne: False
        show ?thesis
        proof (cases "chr (ws ! i) \<noteq> chr (ws ! j)")
          case True
          from 1(2) [OF \<open>j < win\<close> ne True le r] show ?thesis .
        next
          case eq: False
          with False ne have ng: "\<not> dbl_gt (estR2 (geno (ws ! i)) (geno (ws ! j)) n) (Fin r2)"
            by (simp add: conflict_at_def)
          from 1(3) [OF \<open>j < win\<close> ne eq ng le r] show ?thesis .
        qed
      qed
      have "\<forall>k \<in> {j..<r}. \<not> conflict_at ws n r2 i k"
      proof
        fix k assume "k \<in> {j..<r}"
        then have "k = j \<or> k \<in> {Suc j..<r}" by auto
        with False ih show "\<not> conflict_at ws n r2 i k" by auto
      qed
      with ih show ?thesis by simp
    qed
  qed
qed

lemma estLD_scan_win_iff:
  assumes "i < win"
  shows "estLD_scan ws win n r2 i (Suc i) = win \<longleftrightarrow> \<not> conflict ws win n r2 i"
proof
  assume "estLD_scan ws win n r2 i (Suc i) = win"
  from estLD_scan_first [OF _ this] assms show "\<not> conflict ws win n r2 i"
    by (simp add: conflict_def)
next
  assume nc: "\<not> conflict ws win n r2 i"
  define r where "r = estLD_scan ws win n r2 i (Suc i)"
  from assms have le: "Suc i \<le> win" by simp
  from estLD_scan_range [OF le, of ws n r2 i] have rg: "Suc i \<le> r" "r \<le> win"
    by (simp_all add: r_def)
  from estLD_scan_first [OF le, of ws n r2 i r] have "r < win \<longrightarrow> conflict_at ws n r2 i r"
    by (simp add: r_def)
  with nc rg have "\<not> r < win" by (auto simp: conflict_def)
  with rg show "estLD_scan ws win n r2 i (Suc i) = win" by (simp add: r_def)
qed

lemma conflict_same_data:
  "same_data s t \<Longrightarrow> win \<le> length t \<Longrightarrow> i < win \<Longrightarrow> conflict s win n r2 i = conflict t win n r2 i"
  by (auto simp: conflict_def conflict_at_def same_data_def)

lemma estLD_site_char:
  assumes "i < win" "win \<le> length s"
  shows "estLD_site win n r2 i s =
         (if chr (s ! i) = [] then s else s[i := (s ! i)\<lparr>ok := decision s win n r2 i\<rparr>])"
  using estLD_scan_win_iff [OF assms(1), of s n r2]
  by (simp add: estLD_site_def Let_def decision_def)

lemma estLD_fold_char:
  assumes "win \<le> length ws"
  shows "k \<le> win \<Longrightarrow>
     same_data (fold (estLD_site win n r2) [0..<k] ws) ws \<and>
     (\<forall>i < length ws. ok (fold (estLD_site win n r2) [0..<k] ws ! i) =
        (if i < k \<and> chr (ws ! i) \<noteq> [] then decision ws win n r2 i else ok (ws ! i)))"
proof (induction k)
  case 0
  show ?case by (simp add: same_data_def)
next
  case (Suc k)
  define s where "s = fold (estLD_site win n r2) [0..<k] ws"
  from Suc have kw: "k < win" and ih1: "same_data s ws"
    and ih2: "\<forall>i < length ws. ok (s ! i) =
        (if i < k \<and> chr (ws ! i) \<noteq> [] then decision ws win n r2 i else ok (ws ! i))"
    by (simp_all add: s_def)
  from ih1 have len: "length s = length ws" by (simp add: same_data_def)
  from kw assms have kl: "k < length ws" by simp
  have step: "fold (estLD_site win n r2) [0..<Suc k] ws = estLD_site win n r2 k s"
    by (simp add: s_def)
  have ch: "estLD_site win n r2 k s =
         (if chr (s ! k) = [] then s else s[k := (s ! k)\<lparr>ok := decision s win n r2 k\<rparr>])"
    using kw assms len by (simp add: estLD_site_char)
  have chrk: "chr (s ! k) = chr (ws ! k)"
    using ih1 kl by (simp add: same_data_def)
  have dk: "decision s win n r2 k = decision ws win n r2 k"
    using conflict_same_data [OF ih1 assms kw, of n r2] ih2 kl
    by (simp add: decision_def)
  show ?case
  proof (cases "chr (ws ! k) = []")
    case True
    with ch chrk have "estLD_site win n r2 k s = s" by simp
    with step ih1 ih2 True show ?thesis
      by (auto simp: s_def less_Suc_eq)
  next
    case False
    with ch chrk dk have e: "estLD_site win n r2 k s = s[k := (s ! k)\<lparr>ok := decision ws win n r2 k\<rparr>]"
      by simp
    have sd: "same_data (s[k := (s ! k)\<lparr>ok := decision ws win n r2 k\<rparr>]) ws"
      using ih1 len kl by (auto simp: same_data_def nth_list_update)
    have oks: "\<forall>i < length ws. ok (s[k := (s ! k)\<lparr>ok := decision ws win n r2 k\<rparr>] ! i) =
        (if i < Suc k \<and> chr (ws ! i) \<noteq> [] then decision ws win n r2 i else ok (ws ! i))"
    proof (intro allI impI)
      fix i assume il: "i < length ws"
      show "ok (s[k := (s ! k)\<lparr>ok := decision ws win n r2 k\<rparr>] ! i) =
        (if i < Suc k \<and> chr (ws ! i) \<noteq> [] then decision ws win n r2 i else ok (ws ! i))"
      proof (cases "i = k")
        case True
        with len kl False show ?thesis by simp
      next
        case ne: False
        then have "i < Suc k \<longleftrightarrow> i < k" by auto
        with ne ih2 il show ?thesis by simp
      qed
    qed
    from sd oks show ?thesis by (simp only: step e)
  qed
qed

lemma estLD_char:
  assumes "win \<le> length ws"
  shows "same_data (estLD ws win n r2) ws"
    and "i < length ws \<Longrightarrow> ok (estLD ws win n r2 ! i) =
        (if i < win \<and> chr (ws ! i) \<noteq> [] then decision ws win n r2 i else ok (ws ! i))"
  using estLD_fold_char [OF assms, of win n r2] by (simp_all add: estLD_def)

section \<open>The claims about the estimator and the evaluator\<close>

lemmas r2_eval = estR2_gt_sums estR2_sums_def estR2_step_def geno_at_def r2_num_def r2_den_def eval_nat_numeral

text \<open>
  Claim C5. When the Pearson denominator over the individuals missing in neither vector is
  zero or negative, \<^verbatim>\<open>estR2\<close> returns NaN; the comparison with the threshold is then false,
  so the pair is no conflict and the forward scan of \<^verbatim>\<open>estLD\<close> passes over it.
\<close>

theorem estR2_degenerate_never_conflicts:
  assumes "pearson_den (geno (ws ! i)) (geno (ws ! j)) n \<le> 0"
  shows "estR2 (geno (ws ! i)) (geno (ws ! j)) n = NaN
       \<and> \<not> dbl_gt (estR2 (geno (ws ! i)) (geno (ws ! j)) n) (Fin t)
       \<and> \<not> conflict_at ws n t i j
       \<and> (j < win \<longrightarrow> estLD_scan ws win n t i j = estLD_scan ws win n t i (Suc j))"
proof -
  from assms have nan: "estR2 (geno (ws ! i)) (geno (ws ! j)) n = NaN"
    by (rule estR2_degenerate)
  have step: "j < win \<longrightarrow> estLD_scan ws win n t i j = estLD_scan ws win n t i (Suc j)"
  proof
    assume "j < win"
    then show "estLD_scan ws win n t i j = estLD_scan ws win n t i (Suc j)"
      by (subst estLD_scan.simps) (simp add: nan)
  qed
  from nan step show ?thesis by (simp add: conflict_at_def)
qed

theorem estR2_degenerate_never_conflicts_witness:
  "pearson_den (geno (flat_pair ! 0)) (geno (flat_pair ! 1)) 3 \<le> 0
   \<and> (1 :: nat) < 2
   \<and> estR2 (geno (flat_pair ! 0)) (geno (flat_pair ! 1)) 3 = NaN
   \<and> \<not> conflict_at flat_pair 3 (1 / 10) 0 1
   \<and> estLD_scan flat_pair 2 3 (1 / 10) 0 1 = estLD_scan flat_pair 2 3 (1 / 10) 0 (Suc 1)"
proof -
  have h: "pearson_den (geno (flat_pair ! 0)) (geno (flat_pair ! 1)) 3 \<le> 0"
    by (simp add: flat_pair_def r2_den_sums [symmetric] r2_eval)
  from estR2_degenerate_never_conflicts [OF h, of "1 / 10" 2] h show ?thesis by simp
qed

text \<open>
  Claim C2. \<^verbatim>\<open>estLD\<close> marks an active site \<open>i\<close> of the evaluated range kept (\<open>ok = 1\<close>)
  exactly when no later active slot on its chromosome exceeds the threshold with it and
  its state before the call was pending or kept; otherwise it marks the site rejected
  (\<open>ok = 0\<close>). The scan of \<open>i\<close> ends at \<open>win\<close> or at the first exceeding slot.
\<close>

theorem estLD_marks_kept_iff:
  assumes "win \<le> length ws" and "i < win" and "chr (ws ! i) \<noteq> []"
  shows "ok (estLD ws win n r2 ! i) =
           (if \<not> conflict ws win n r2 i \<and> (ok (ws ! i) = - 1 \<or> ok (ws ! i) = 1) then 1 else 0)
       \<and> (estLD_scan ws win n r2 i (Suc i) = win \<longleftrightarrow> \<not> conflict ws win n r2 i)
       \<and> (estLD_scan ws win n r2 i (Suc i) < win \<longrightarrow>
            conflict_at ws n r2 i (estLD_scan ws win n r2 i (Suc i))
            \<and> (\<forall>k \<in> {Suc i..<estLD_scan ws win n r2 i (Suc i)}. \<not> conflict_at ws n r2 i k))"
proof -
  from assms have il: "i < length ws" by simp
  have a: "ok (estLD ws win n r2 ! i) =
           (if \<not> conflict ws win n r2 i \<and> (ok (ws ! i) = - 1 \<or> ok (ws ! i) = 1) then 1 else 0)"
    using estLD_char(2) [OF assms(1) il, of n r2] assms(2,3) by (simp add: decision_def)
  have b: "estLD_scan ws win n r2 i (Suc i) = win \<longleftrightarrow> \<not> conflict ws win n r2 i"
    by (rule estLD_scan_win_iff [OF assms(2)])
  from assms(2) have le: "Suc i \<le> win" by simp
  have c: "estLD_scan ws win n r2 i (Suc i) < win \<longrightarrow>
            conflict_at ws n r2 i (estLD_scan ws win n r2 i (Suc i))
            \<and> (\<forall>k \<in> {Suc i..<estLD_scan ws win n r2 i (Suc i)}. \<not> conflict_at ws n r2 i k)"
    using estLD_scan_first [OF le refl, of ws n r2 i] by simp
  from a b c show ?thesis by simp
qed

lemmas scan_eval = r2_eval estLD_scan.simps conflict_def conflict_at_def

theorem estLD_marks_kept_iff_witness:
  "3 \<le> length trio \<and> (1 :: nat) < 3 \<and> chr (trio ! 1) \<noteq> []
   \<and> \<not> conflict trio 3 3 (1 / 10) 1 \<and> ok (trio ! 1) = - 1
   \<and> ok (estLD trio 3 3 (1 / 10) ! 1) = 1
   \<and> estLD_scan trio 3 3 (1 / 10) 1 (Suc 1) = 3"
proof -
  have h1: "3 \<le> length trio" by (simp add: trio_def)
  have h2: "(1 :: nat) < 3" by simp
  have h3: "chr (trio ! 1) \<noteq> []" by (simp add: trio_def)
  have nc: "\<not> conflict trio 3 3 (1 / 10) 1"
    by (simp add: trio_def scan_eval)
  have o: "ok (trio ! 1) = - 1" by (simp add: trio_def)
  from estLD_marks_kept_iff [OF h1 h2 h3, of 3 "1 / 10"] nc o h1 h2 h3 show ?thesis by simp
qed

lemmas estLD_eval = scan_eval estLD_def estLD_site_def Let_def

text \<open>
  Claim C3 as stated fails: the pending site at slot 0 exceeds the threshold only with the
  site at slot 1, which is already rejected, and \<^verbatim>\<open>estLD\<close> rejects it all the same.
\<close>

theorem estLD_rejected_partner_counterexample:
  "ok (rej_pair ! 0) = - 1 \<and> ok (rej_pair ! 1) = 0 \<and> conflict_at rej_pair 3 (1 / 10) 0 1
   \<and> ok (estLD rej_pair 2 3 (1 / 10) ! 0) = 0"
  by (simp add: rej_pair_def estLD_eval)

text \<open>
  Claim C3, amended. \<^verbatim>\<open>estLD\<close> rejects a pending or kept site exactly when some later
  active slot on its chromosome exceeds the threshold with it, whatever the decision state
  of that slot: the decision for \<open>i\<close> is the same in every window that holds the same
  sites and the same state of \<open>i\<close>.
\<close>

theorem estLD_rejects_whatever_partner_state:
  assumes "win \<le> length ws" and "i < win" and "chr (ws ! i) \<noteq> []"
    and "ok (ws ! i) = - 1 \<or> ok (ws ! i) = 1"
  shows "(ok (estLD ws win n r2 ! i) = 0 \<longleftrightarrow> (\<exists>j \<in> {Suc i..<win}. conflict_at ws n r2 i j))
       \<and> (same_data ws' ws \<and> ok (ws' ! i) = ok (ws ! i) \<longrightarrow>
            ok (estLD ws' win n r2 ! i) = ok (estLD ws win n r2 ! i))"
proof -
  from assms have il: "i < length ws" by simp
  have o: "ok (estLD ws win n r2 ! i) = decision ws win n r2 i"
    using estLD_char(2) [OF assms(1) il, of n r2] assms(2,3) by simp
  have a: "ok (estLD ws win n r2 ! i) = 0 \<longleftrightarrow> (\<exists>j \<in> {Suc i..<win}. conflict_at ws n r2 i j)"
    using assms(4) by (auto simp: o decision_def conflict_def)
  have b: "same_data ws' ws \<and> ok (ws' ! i) = ok (ws ! i) \<longrightarrow>
            ok (estLD ws' win n r2 ! i) = ok (estLD ws win n r2 ! i)"
  proof
    assume h: "same_data ws' ws \<and> ok (ws' ! i) = ok (ws ! i)"
    then have sd: "same_data ws' ws" and oe: "ok (ws' ! i) = ok (ws ! i)" by simp_all
    from sd have len: "length ws' = length ws" by (simp add: same_data_def)
    from sd il have ce: "chr (ws' ! i) = chr (ws ! i)" by (simp add: same_data_def)
    have w': "win \<le> length ws'" using assms(1) len by simp
    have il': "i < length ws'" using il len by simp
    have "ok (estLD ws' win n r2 ! i) = decision ws' win n r2 i"
      using estLD_char(2) [OF w' il', of n r2] assms(2,3) ce by simp
    also have "\<dots> = decision ws win n r2 i"
      using conflict_same_data [OF sd assms(1,2), of n r2] oe by (simp add: decision_def)
    finally show "ok (estLD ws' win n r2 ! i) = ok (estLD ws win n r2 ! i)" by (simp add: o)
  qed
  from a b show ?thesis by simp
qed

theorem estLD_rejects_whatever_partner_state_witness:
  "2 \<le> length rej_pair \<and> (0 :: nat) < 2 \<and> chr (rej_pair ! 0) \<noteq> [] \<and> ok (rej_pair ! 0) = - 1
   \<and> same_data rej_pair' rej_pair \<and> ok (rej_pair' ! 0) = ok (rej_pair ! 0)
   \<and> conflict_at rej_pair 3 (1 / 10) 0 1
   \<and> ok (estLD rej_pair 2 3 (1 / 10) ! 0) = 0
   \<and> ok (estLD rej_pair' 2 3 (1 / 10) ! 0) = 0"
proof -
  have h1: "2 \<le> length rej_pair" by (simp add: rej_pair_def)
  have h2: "(0 :: nat) < 2" by simp
  have h3: "chr (rej_pair ! 0) \<noteq> []" by (simp add: rej_pair_def)
  have h4: "ok (rej_pair ! 0) = - 1 \<or> ok (rej_pair ! 0) = 1" by (simp add: rej_pair_def)
  have sd: "same_data rej_pair' rej_pair"
    by (simp add: same_data_def rej_pair_def rej_pair'_def less_Suc_eq eval_nat_numeral)
  have oe: "ok (rej_pair' ! 0) = ok (rej_pair ! 0)" by (simp add: rej_pair_def rej_pair'_def)
  have c: "conflict_at rej_pair 3 (1 / 10) 0 1" by (simp add: rej_pair_def scan_eval)
  have ex: "\<exists>j \<in> {Suc 0..<2}. conflict_at rej_pair 3 (1 / 10) 0 j"
    using c by (intro bexI [of _ 1]) simp_all
  have o: "ok (rej_pair ! 0) = - 1" by (simp add: rej_pair_def)
  from estLD_rejects_whatever_partner_state [OF h1 h2 h3 h4, of 3 "1 / 10" rej_pair'] sd oe ex
  have "ok (estLD rej_pair 2 3 (1 / 10) ! 0) = 0 \<and> ok (estLD rej_pair' 2 3 (1 / 10) ! 0) = 0"
    by simp
  with h1 h2 h3 o sd oe c show ?thesis by simp
qed

lemma estLD_length: "win \<le> length ws \<Longrightarrow> length (estLD ws win n r2) = length ws"
  using estLD_char(1) [of win ws n r2] by (simp add: same_data_def)

text \<open>
  Claim C4. A slot whose state is rejected stays rejected through any sequence of
  evaluator calls, with any arguments, between which other slots are overwritten.
\<close>

theorem rejected_is_never_kept_again:
  assumes "i < length ws" and "ok (ws ! i) = 0"
    and "\<forall>e \<in> set es. fst e \<noteq> i \<and> fst (snd (snd e)) \<le> length ws"
  shows "ok (eval_run es ws ! i) = 0"
  using assms
proof (induction es arbitrary: ws)
  case Nil
  then show ?case by simp
next
  case (Cons e es)
  obtain k s win n r2 where e: "e = (k, s, win, n, r2)" by (cases e)
  from Cons.prems(3) e have ki: "k \<noteq> i" and wl: "win \<le> length (ws[k := s])" by simp_all
  from Cons.prems(1) have il: "i < length (ws[k := s])" by simp
  have o: "ok (ws[k := s] ! i) = 0" using ki Cons.prems(2) by simp
  have len: "length (estLD (ws[k := s]) win n r2) = length ws"
    using estLD_length [OF wl] by simp
  have o': "ok (estLD (ws[k := s]) win n r2 ! i) = 0"
    using estLD_char(2) [OF wl il, of n r2] o by (simp add: decision_def)
  have rest: "\<forall>e \<in> set es. fst e \<noteq> i \<and> fst (snd (snd e)) \<le> length (estLD (ws[k := s]) win n r2)"
    using Cons.prems(3) len by simp
  from Cons.IH [OF _ o' rest] Cons.prems(1) len show ?case by (simp add: e)
qed

theorem rejected_is_never_kept_again_witness:
  "(0 :: nat) < length old_pair \<and> ok (old_pair ! 0) = 0
   \<and> \<not> conflict (old_pair[1 := flat_site]) 2 3 (1 / 10) 0
   \<and> ok (eval_run [(1, flat_site, 2, 3, 1 / 10), (1, flat_site, 2, 3, 1 / 2)] old_pair ! 0) = 0"
proof -
  have h1: "(0 :: nat) < length old_pair" by (simp add: old_pair_def)
  have h2: "ok (old_pair ! 0) = 0" by (simp add: old_pair_def)
  have h3: "\<forall>e \<in> set [(1, flat_site, 2, 3, 1 / 10), (1 :: nat, flat_site, 2 :: nat, 3 :: nat, 1 / 2 :: real)].
              fst e \<noteq> 0 \<and> fst (snd (snd e)) \<le> length old_pair"
    by (simp add: old_pair_def)
  have nc: "\<not> conflict (old_pair[1 := flat_site]) 2 3 (1 / 10) 0"
    by (simp add: old_pair_def flat_site_def scan_eval)
  from rejected_is_never_kept_again [OF h1 h2 h3] h1 h2 nc show ?thesis by simp
qed

section \<open>The dosage extraction and the stream driver\<close>

lemma evens_from_rec:
  assumes "even i"
  shows "evens_from i m = (if i < m then i # evens_from (i + 2) m else [])"
proof (cases "i < m")
  case False
  then show ?thesis by (simp add: evens_from_def)
next
  case True
  have a: "[i..<m] = i # [Suc i..<m]" using True by (simp add: upt_rec [of i])
  have b: "filter even [Suc i..<m] = filter even [Suc (Suc i)..<m]"
  proof (cases "Suc i < m")
    case True
    then have "[Suc i..<m] = Suc i # [Suc (Suc i)..<m]" by (simp add: upt_rec [of "Suc i"])
    with assms show ?thesis by simp
  next
    case False
    then show ?thesis by simp
  qed
  from a b assms True show ?thesis by (simp add: evens_from_def)
qed

lemma read_alleles_Some:
  "even i \<Longrightarrow> \<forall>k \<in> set (evens_from i (Suc stop)). hap ! k = CHR ''0'' \<or> hap ! k = CHR ''1'' \<Longrightarrow>
   read_alleles hap stop i ga =
     Some (fst ga + real (length (filter (\<lambda>k. hap ! k = CHR ''1'') (evens_from i (Suc stop)))),
           snd ga + real (length (filter (\<lambda>k. hap ! k = CHR ''1'') (evens_from i (Suc stop)))))"
proof (induction hap stop i ga rule: read_alleles.induct)
  case (1 hap stop i ga)
  note fe = evens_from_rec [OF "1.prems"(1), of "Suc stop"]
  show ?case
  proof (cases "i \<le> stop")
    case False
    then show ?thesis by (subst read_alleles.simps) (simp add: fe)
  next
    case True
    then have lt: "i < Suc stop" by simp
    from "1.prems"(2) have here: "hap ! i = CHR ''0'' \<or> hap ! i = CHR ''1''"
      and rest: "\<forall>k \<in> set (evens_from (i + 2) (Suc stop)). hap ! k = CHR ''0'' \<or> hap ! k = CHR ''1''"
      by (simp_all add: fe lt)
    from "1.prems"(1) have ev: "even (i + 2)" by simp
    note ih = "1.IH" [OF True here ev rest]
    have unf: "read_alleles hap stop i ga =
        read_alleles hap stop (i + 2)
             (fst ga + real_of_int (of_char (hap ! i) - of_char (CHR ''0'')),
              snd ga + real_of_int (of_char (hap ! i) - of_char (CHR ''0'')))"
      using True here by (subst read_alleles.simps) simp
    from here show ?thesis
    proof
      assume z: "hap ! i = CHR ''0''"
      show ?thesis by (simp only: unf ih) (simp add: fe lt z)
    next
      assume o: "hap ! i = CHR ''1''"
      show ?thesis by (simp only: unf ih) (simp add: fe lt o)
    qed
  qed
qed

lemma read_alleles_None_iff:
  "even i \<Longrightarrow>
   read_alleles hap stop i ga = None \<longleftrightarrow>
   (\<exists>k \<in> set (evens_from i (Suc stop)). \<not> (hap ! k = CHR ''0'' \<or> hap ! k = CHR ''1''))"
proof (induction hap stop i ga rule: read_alleles.induct)
  case (1 hap stop i ga)
  note fe = evens_from_rec [OF "1.prems"(1), of "Suc stop"]
  show ?case
  proof (cases "i \<le> stop")
    case False
    then show ?thesis by (subst read_alleles.simps) (simp add: fe)
  next
    case True
    then have lt: "i < Suc stop" by simp
    from "1.prems"(1) have ev: "even (i + 2)" by simp
    show ?thesis
    proof (cases "hap ! i = CHR ''0'' \<or> hap ! i = CHR ''1''")
      case False
      have "read_alleles hap stop i ga = None"
        using True False by (subst read_alleles.simps) simp
      with False show ?thesis by (simp add: fe lt)
    next
      case here: True
      note ih = "1.IH" [OF True here ev]
      have unf: "read_alleles hap stop i ga =
        read_alleles hap stop (i + 2)
             (fst ga + real_of_int (of_char (hap ! i) - of_char (CHR ''0'')),
              snd ga + real_of_int (of_char (hap ! i) - of_char (CHR ''0'')))"
        using True here by (subst read_alleles.simps) simp
      from here show ?thesis by (simp only: unf ih) (auto simp add: fe lt)
    qed
  qed
qed

lemma length_even_offsets: "length (filter even [0..<n]) = (n + 1) div 2"
  by (induction n) auto

lemma even_offsets_from: "even_offsets hap = evens_from 0 (length hap)"
  by (simp add: even_offsets_def evens_from_def)

lemma count_ones_le: "count_ones hap \<le> (length hap + 1) div 2"
proof -
  have "count_ones hap \<le> length (even_offsets hap)"
    unfolding count_ones_def by (rule length_filter_le)
  then show ?thesis by (simp add: even_offsets_def length_even_offsets)
qed

lemma ploidy_stop_Some:
  "length hap \<in> {3, 7, 11, 15} \<Longrightarrow>
   ploidy_stop (length hap) = Some (real ((length hap + 1) div 2), length hap - 1)"
  by (auto simp: ploidy_stop_def)

lemma ploidy_stop_None: "length hap \<notin> {3, 7, 11, 15} \<Longrightarrow> ploidy_stop (length hap) = None"
  by (simp add: ploidy_stop_def)

lemma Suc_stop: "length hap \<in> {3, 7, 11, 15} \<Longrightarrow> Suc (length hap - 1) = length hap"
  by auto

lemma read_hap_present:
  "\<not> is_missing hap \<Longrightarrow>
   read_hap c p hap t =
     (case ploidy_stop (length hap) of
        None \<Rightarrow> Inl UnsupportedPloidy
      | Some (ploidy, stop) \<Rightarrow>
          (case read_alleles hap stop 0 (0, alt_i t) of
             None \<Rightarrow> Inl (UnknownAlleles c p)
           | Some (g, a) \<Rightarrow>
               Inr (t\<lparr>t_geno := t_geno t @ [g], alt_i := a, hap_i := hap_i t + ploidy\<rparr>)))"
  unfolding read_hap_def is_missing_def by (simp only: if_False)

lemma read_hap_missing:
  "is_missing hap \<Longrightarrow> read_hap c p hap t = Inr (t\<lparr>t_geno := t_geno t @ [- 1], mis_i := mis_i t + 1\<rparr>)"
  by (simp add: read_hap_def is_missing_def)

lemma read_hap_dosage:
  assumes "length hap \<in> {3, 7, 11, 15}" and "\<not> is_missing hap" and "biallelic hap"
  shows "read_hap c p hap t =
         Inr (t\<lparr>t_geno := t_geno t @ [real (count_ones hap)],
                alt_i := alt_i t + real (count_ones hap),
                hap_i := hap_i t + real ((length hap + 1) div 2)\<rparr>)"
proof -
  from assms(3) have ok: "\<forall>k \<in> set (evens_from 0 (Suc (length hap - 1))). hap ! k = CHR ''0'' \<or> hap ! k = CHR ''1''"
    unfolding Suc_stop [OF assms(1)] by (simp add: biallelic_def even_offsets_from)
  have ra: "read_alleles hap (length hap - 1) 0 (0, alt_i t) =
        Some (real (count_ones hap), alt_i t + real (count_ones hap))"
    using read_alleles_Some [OF _ ok, of "(0, alt_i t)"]
    unfolding Suc_stop [OF assms(1)] by (simp add: count_ones_def even_offsets_from)
  show ?thesis
    by (simp only: read_hap_present [OF assms(2)] ploidy_stop_Some [OF assms(1)] ra
          option.case prod.case)
qed

lemma read_hap_ploidy_error:
  assumes "length hap \<notin> {3, 7, 11, 15}" and "\<not> is_missing hap"
  shows "read_hap c p hap t = Inl UnsupportedPloidy"
proof -
  show ?thesis
    by (simp only: read_hap_present [OF assms(2)] ploidy_stop_None [OF assms(1)] option.case)
qed

lemma read_hap_allele_error:
  assumes "length hap \<in> {3, 7, 11, 15}" and "\<not> is_missing hap" and "\<not> biallelic hap"
  shows "read_hap c p hap t = Inl (UnknownAlleles c p)"
proof -
  have "read_alleles hap (length hap - 1) 0 (0, alt_i t) = None \<longleftrightarrow>
        (\<exists>k \<in> set (evens_from 0 (length hap)). \<not> (hap ! k = CHR ''0'' \<or> hap ! k = CHR ''1''))"
    using read_alleles_None_iff [of 0 hap "length hap - 1" "(0, alt_i t)"]
    unfolding Suc_stop [OF assms(1)] by simp
  with assms(3) have "read_alleles hap (length hap - 1) 0 (0, alt_i t) = None"
    by (simp add: biallelic_def even_offsets_from)
  then show ?thesis
    by (simp only: read_hap_present [OF assms(2)] ploidy_stop_Some [OF assms(1)]
          option.case prod.case)
qed

lemma read_hap_cases:
  "read_hap c p hap t =
     (if is_missing hap then Inr (t\<lparr>t_geno := t_geno t @ [- 1], mis_i := mis_i t + 1\<rparr>)
      else if length hap \<notin> {3, 7, 11, 15} then Inl UnsupportedPloidy
      else if \<not> biallelic hap then Inl (UnknownAlleles c p)
      else Inr (t\<lparr>t_geno := t_geno t @ [real (count_ones hap)],
                alt_i := alt_i t + real (count_ones hap),
                hap_i := hap_i t + real ((length hap + 1) div 2)\<rparr>))"
  using read_hap_missing [of hap c p t] read_hap_dosage [of hap c p t]
    read_hap_ploidy_error [of hap c p t] read_hap_allele_error [of hap c p t]
  by auto

subsection \<open>Counters through the driver's steps\<close>

lemma set_slot_fields [simp]:
  "win_n (set_slot f st) = win_n st" "win_i (set_slot f st) = win_i st"
  "step_i (set_slot f st) = step_i st" "ind_n (set_slot f st) = ind_n st"
  "snp_i (set_slot f st) = snp_i st" "printed (set_slot f st) = printed st"
  "length (snps (set_slot f st)) = length (snps st)"
  by (simp_all add: set_slot_def)

lemma evaluate_fields [simp]:
  "win_n (evaluate r2 st) = win_n st" "win_i (evaluate r2 st) = win_i st"
  "step_i (evaluate r2 st) = step_i st" "ind_n (evaluate r2 st) = ind_n st"
  "snp_i (evaluate r2 st) = snp_i st" "printed (evaluate r2 st) = printed st"
  by (simp_all add: evaluate_def)

lemma print_kept_fields [simp]:
  "win_n (print_kept st) = win_n st" "win_i (print_kept st) = win_i st"
  "step_i (print_kept st) = step_i st" "ind_n (print_kept st) = ind_n st"
  "length (snps (print_kept st)) = length (snps st)"
  by (simp_all add: print_kept_def Let_def)

lemma advance_fields [simp]:
  "win_n (advance win st) = win_n st" "step_i (advance win st) = step_i st"
  "ind_n (advance win st) = ind_n st" "snps (advance win st) = snps st"
  "snp_i (advance win st) = snp_i st" "printed (advance win st) = printed st"
  by (simp_all add: advance_def Let_def)

lemma flush_steps_fields:
  "win_n (((\<lambda>s. advance win (print_kept s)) ^^ k) st) = win_n st \<and>
   step_i (((\<lambda>s. advance win (print_kept s)) ^^ k) st) = step_i st \<and>
   ind_n (((\<lambda>s. advance win (print_kept s)) ^^ k) st) = ind_n st \<and>
   length (snps (((\<lambda>s. advance win (print_kept s)) ^^ k) st)) = length (snps st)"
  by (induction k) simp_all

lemma flush_fields [simp]:
  "win_n (flush win st) = win_n st" "step_i (flush win st) = step_i st"
  "ind_n (flush win st) = ind_n st" "length (snps (flush win st)) = length (snps st)"
  using flush_steps_fields [of win win st] by (simp_all add: flush_def)

lemma chr_change_ind_n [simp]: "ind_n (chr_change win r2 c st) = ind_n st"
  by (simp add: chr_change_def)

subsection \<open>Dosage extraction over a row\<close>

lemma read_hap_error_iff: "(\<exists>e. read_hap c p hap t = Inl e) \<longleftrightarrow> bad_token hap"
  by (simp add: read_hap_cases bad_token_def)

lemma read_haps_error_iff:
  "(\<exists>e. read_haps c p haps t = Inl e) \<longleftrightarrow> (\<exists>h \<in> set haps. bad_token h)"
proof (induction haps arbitrary: t)
  case Nil
  show ?case by simp
next
  case (Cons h hs)
  show ?case
  proof (cases "read_hap c p h t")
    case (Inl e)
    then have "bad_token h" using read_hap_error_iff [of c p h t] by auto
    with Inl show ?thesis by simp
  next
    case (Inr t')
    then have "\<not> bad_token h" using read_hap_error_iff [of c p h t] by auto
    with Inr Cons.IH [of t'] show ?thesis by simp
  qed
qed

lemma read_haps_error_kind:
  "read_haps c p haps t = Inl e \<Longrightarrow> e = UnsupportedPloidy \<or> e = UnknownAlleles c p"
proof (induction haps arbitrary: t)
  case Nil
  then show ?case by simp
next
  case (Cons h hs)
  show ?case
  proof (cases "read_hap c p h t")
    case (Inl e')
    with Cons.prems have "e' = e" by simp
    with Inl show ?thesis by (auto simp: read_hap_cases split: if_splits)
  next
    case (Inr t')
    with Cons.prems have "read_haps c p hs t' = Inl e" by simp
    then show ?thesis by (rule Cons.IH)
  qed
qed

lemma read_haps_all_missing:
  "\<forall>h \<in> set haps. is_missing h \<Longrightarrow>
   read_haps c p haps t =
     Inr (t\<lparr>t_geno := t_geno t @ replicate (length haps) (- 1),
            mis_i := mis_i t + real (length haps)\<rparr>)"
proof (induction haps arbitrary: t)
  case Nil
  show ?case by simp
next
  case (Cons h hs)
  then have m: "is_missing h" and rest: "\<forall>h \<in> set hs. is_missing h" by simp_all
  show ?case
    by (simp add: read_hap_missing [OF m] Cons.IH [OF rest] replicate_append_same [symmetric]
        del: replicate_append_same)
qed

lemma read_haps_tally:
  "read_haps c p haps t = Inr t' \<Longrightarrow>
   mis_i t' = mis_i t + real (length (filter is_missing haps)) \<and>
   length (t_geno t') = length (t_geno t) + length haps \<and>
   hap_i t \<le> hap_i t' \<and>
   ((\<exists>h \<in> set haps. \<not> is_missing h) \<longrightarrow> hap_i t < hap_i t')"
proof (induction haps arbitrary: t)
  case Nil
  then show ?case by simp
next
  case (Cons h hs)
  from Cons.prems obtain t1 where h1: "read_hap c p h t = Inr t1" and r: "read_haps c p hs t1 = Inr t'"
    by (cases "read_hap c p h t") simp_all
  note ih = Cons.IH [OF r]
  show ?case
  proof (cases "is_missing h")
    case True
    with h1 have "t1 = t\<lparr>t_geno := t_geno t @ [- 1], mis_i := mis_i t + 1\<rparr>"
      by (simp add: read_hap_missing)
    with ih True show ?thesis by auto
  next
    case False
    with h1 have "t1 = t\<lparr>t_geno := t_geno t @ [real (count_ones h)],
                alt_i := alt_i t + real (count_ones h),
                hap_i := hap_i t + real ((length h + 1) div 2)\<rparr>"
      and len: "length h \<in> {3, 7, 11, 15}"
      by (auto simp: read_hap_cases split: if_splits)
    then have m: "mis_i t1 = mis_i t" and g: "length (t_geno t1) = Suc (length (t_geno t))"
      and hp: "hap_i t < hap_i t1"
      using len by auto
    from ih m g hp False show ?thesis by auto
  qed
qed

lemmas token_eval = is_missing_def biallelic_def even_offsets_def count_ones_def bad_token_def

text \<open>
  Claim C7. For a token of length 3, 7, 11 or 15 that does not start with \<^verbatim>\<open>.\<close> and holds
  only 0 and 1 at its even offsets, the extracted dosage is the number of 1 at the even
  offsets, at most the ploidy 2, 4, 6 or 8 that belongs to the length; a token that starts
  with \<^verbatim>\<open>.\<close> gives the missing value \<open>-1\<close> whatever follows.
\<close>

theorem dosage_counts_alt_alleles:
  assumes "length hap \<in> {3, 7, 11, 15}" and "\<not> is_missing hap" and "biallelic hap"
    and "is_missing hap'"
  shows "read_hap c p hap t =
           Inr (t\<lparr>t_geno := t_geno t @ [real (count_ones hap)],
                  alt_i := alt_i t + real (count_ones hap),
                  hap_i := hap_i t + real ((length hap + 1) div 2)\<rparr>)
       \<and> count_ones hap \<le> (length hap + 1) div 2
       \<and> (length hap + 1) div 2 \<in> {2, 4, 6, 8}
       \<and> read_hap c p hap' t = Inr (t\<lparr>t_geno := t_geno t @ [- 1], mis_i := mis_i t + 1\<rparr>)"
proof -
  from assms(1) have "(length hap + 1) div 2 \<in> {2, 4, 6, 8}" by auto
  with read_hap_dosage [OF assms(1-3)] count_ones_le [of hap] read_hap_missing [OF assms(4)]
  show ?thesis by simp
qed

theorem dosage_counts_alt_alleles_witness:
  "length ''0/1/1/1'' \<in> {3, 7, 11, 15 :: nat} \<and> \<not> is_missing ''0/1/1/1'' \<and> biallelic ''0/1/1/1''
   \<and> is_missing ''./9''
   \<and> read_hap ''1'' 10 ''0/1/1/1'' zero_tally = Inr \<lparr>t_geno = [3], mis_i = 0, alt_i = 3, hap_i = 4\<rparr>
   \<and> read_hap ''1'' 10 ''./9'' zero_tally = Inr \<lparr>t_geno = [- 1], mis_i = 1, alt_i = 0, hap_i = 0\<rparr>"
proof -
  have h1: "length ''0/1/1/1'' \<in> {3, 7, 11, 15 :: nat}" by simp
  have h2: "\<not> is_missing ''0/1/1/1''" by (simp add: is_missing_def)
  have h3: "biallelic ''0/1/1/1''" by (simp add: token_eval)
  have h4: "is_missing ''./9''" by (simp add: is_missing_def)
  have c: "count_ones ''0/1/1/1'' = 3" by (simp add: token_eval)
  from dosage_counts_alt_alleles [OF h1 h2 h3 h4, of "''1''" 10 zero_tally] h1 h2 h3 h4 c
  show ?thesis by (simp add: zero_tally_def)
qed

lemma read_line_Inl:
  "read_line win step mis maf r2 l st = Inl x \<longleftrightarrow>
   (\<exists>e. read_haps (l_chr l) (l_pos l) (l_haps l) zero_tally = Inl e
        \<and> x = (e, printed (begin_row win r2 l st)))"
proof (cases "read_haps (l_chr l) (l_pos l) (l_haps l) zero_tally")
  case (Inl e)
  then show ?thesis by (auto simp: read_line_def Let_def)
next
  case (Inr t)
  then show ?thesis by (simp add: read_line_def Let_def split: verdict.split)
qed

lemma read_line_error_iff:
  "(\<exists>x. read_line win step mis maf r2 l st = Inl x) \<longleftrightarrow> (\<exists>h \<in> set (l_haps l). bad_token h)"
  by (simp add: read_line_Inl read_haps_error_iff)

lemma read_line_error_kind:
  "read_line win step mis maf r2 l st = Inl (e, out) \<Longrightarrow>
   e = UnsupportedPloidy \<or> e = UnknownAlleles (l_chr l) (l_pos l)"
  by (auto simp: read_line_Inl dest: read_haps_error_kind)

lemma read_lines_error_iff:
  "(\<exists>x. read_lines win step mis maf r2 ls st = Inl x) \<longleftrightarrow>
   (\<exists>l \<in> set ls. \<exists>h \<in> set (l_haps l). bad_token h)"
proof (induction ls arbitrary: st)
  case Nil
  show ?case by simp
next
  case (Cons l ls)
  show ?case
  proof (cases "read_line win step mis maf r2 l st")
    case (Inl x)
    then have "\<exists>h \<in> set (l_haps l). bad_token h"
      using read_line_error_iff [of win step mis maf r2 l st] by auto
    with Inl show ?thesis by simp
  next
    case (Inr st')
    then have "\<not> (\<exists>h \<in> set (l_haps l). bad_token h)"
      using read_line_error_iff [of win step mis maf r2 l st] by auto
    with Inr Cons.IH [of st'] show ?thesis by simp
  qed
qed

lemma read_lines_error_kind:
  "read_lines win step mis maf r2 ls st = Inl (e, out) \<Longrightarrow>
   e = UnsupportedPloidy \<or> (\<exists>l \<in> set ls. e = UnknownAlleles (l_chr l) (l_pos l))"
proof (induction ls arbitrary: st)
  case Nil
  then show ?case by simp
next
  case (Cons l ls)
  show ?case
  proof (cases "read_line win step mis maf r2 l st")
    case (Inl x)
    with Cons.prems have "read_line win step mis maf r2 l st = Inl (e, out)" by simp
    from read_line_error_kind [OF this] show ?thesis by auto
  next
    case (Inr st')
    with Cons.prems have "read_lines win step mis maf r2 ls st' = Inl (e, out)" by simp
    from Cons.IH [OF this] show ?thesis by auto
  qed
qed

lemma read_lines_append_error:
  "read_lines win step mis maf r2 ls st = Inl x \<Longrightarrow>
   read_lines win step mis maf r2 (ls @ rest) st = Inl x"
proof (induction ls arbitrary: st)
  case Nil
  then show ?case by simp
next
  case (Cons l ls)
  show ?case
  proof (cases "read_line win step mis maf r2 l st")
    case (Inl y)
    with Cons.prems show ?thesis by simp
  next
    case (Inr st')
    with Cons.prems have "read_lines win step mis maf r2 ls st' = Inl x" by simp
    from Cons.IH [OF this] Inr show ?thesis by simp
  qed
qed

text \<open>
  Claim C8. The dosage extraction fails exactly on a non-missing token whose length is not
  3, 7, 11 or 15 or that holds another character than 0 or 1 at an even offset; the
  second kind of failure names the chromosome and position of the row. A run aborts in
  the dosage extraction exactly when some row holds such a token, and the rows behind the
  failing one have no effect.
\<close>

theorem bad_token_aborts_run:
  "((\<exists>e. read_hap c p hap t = Inl e) \<longleftrightarrow> bad_token hap)
   \<and> (read_hap c p hap t = Inl e \<longrightarrow>
        (if length hap \<in> {3, 7, 11, 15} then e = UnknownAlleles c p else e = UnsupportedPloidy))
   \<and> ((\<exists>e out. readVcf win step mis maf r2 ls = Inl (e, out) \<and> e \<noteq> NullWindow) \<longleftrightarrow>
        (\<exists>l \<in> set ls. \<exists>h \<in> set (l_haps l). bad_token h))
   \<and> (readVcf win step mis maf r2 ls = Inl (e', out) \<longrightarrow>
        e' = NullWindow \<and> ls = [] \<or> e' = UnsupportedPloidy
        \<or> (\<exists>l \<in> set ls. e' = UnknownAlleles (l_chr l) (l_pos l)))
   \<and> ((\<exists>l \<in> set ls. \<exists>h \<in> set (l_haps l). bad_token h) \<longrightarrow>
        readVcf win step mis maf r2 (ls @ rest) = readVcf win step mis maf r2 ls)"
proof -
  have a: "(\<exists>e. read_hap c p hap t = Inl e) \<longleftrightarrow> bad_token hap"
    by (rule read_hap_error_iff)
  have b: "read_hap c p hap t = Inl e \<longrightarrow>
        (if length hap \<in> {3, 7, 11, 15} then e = UnknownAlleles c p else e = UnsupportedPloidy)"
    by (auto simp: read_hap_cases split: if_splits)
  have c: "(\<exists>e out. readVcf win step mis maf r2 ls = Inl (e, out) \<and> e \<noteq> NullWindow) \<longleftrightarrow>
        (\<exists>l \<in> set ls. \<exists>h \<in> set (l_haps l). bad_token h)"
  proof (cases "ls = []")
    case True
    then show ?thesis by (simp add: readVcf_def)
  next
    case False
    show ?thesis
    proof (cases "read_lines win step mis maf r2 ls (init_state win)")
      case (Inl x)
      obtain e out where x: "x = (e, out)" by (cases x)
      from Inl x read_lines_error_kind [of win step mis maf r2 ls "init_state win" e out]
      have "e \<noteq> NullWindow" by auto
      moreover have "\<exists>l \<in> set ls. \<exists>h \<in> set (l_haps l). bad_token h"
        using Inl read_lines_error_iff [of win step mis maf r2 ls "init_state win"] by auto
      ultimately show ?thesis using Inl x False by (simp add: readVcf_def)
    next
      case (Inr st)
      then have "\<not> (\<exists>l \<in> set ls. \<exists>h \<in> set (l_haps l). bad_token h)"
        using read_lines_error_iff [of win step mis maf r2 ls "init_state win"] by auto
      with Inr False show ?thesis by (simp add: readVcf_def)
    qed
  qed
  have d: "readVcf win step mis maf r2 ls = Inl (e', out) \<longrightarrow>
        e' = NullWindow \<and> ls = [] \<or> e' = UnsupportedPloidy
        \<or> (\<exists>l \<in> set ls. e' = UnknownAlleles (l_chr l) (l_pos l))"
  proof (cases "ls = []")
    case True
    then show ?thesis by (simp add: readVcf_def)
  next
    case False
    show ?thesis
    proof
      assume r: "readVcf win step mis maf r2 ls = Inl (e', out)"
      with False have "read_lines win step mis maf r2 ls (init_state win) = Inl (e', out)"
        by (simp add: readVcf_def split: sum.splits)
      from read_lines_error_kind [OF this]
      show "e' = NullWindow \<and> ls = [] \<or> e' = UnsupportedPloidy
        \<or> (\<exists>l \<in> set ls. e' = UnknownAlleles (l_chr l) (l_pos l))" by simp
    qed
  qed
  have e: "(\<exists>l \<in> set ls. \<exists>h \<in> set (l_haps l). bad_token h) \<longrightarrow>
        readVcf win step mis maf r2 (ls @ rest) = readVcf win step mis maf r2 ls"
  proof
    assume bad: "\<exists>l \<in> set ls. \<exists>h \<in> set (l_haps l). bad_token h"
    then have ne: "ls \<noteq> []" by auto
    from bad obtain x where x: "read_lines win step mis maf r2 ls (init_state win) = Inl x"
      using read_lines_error_iff [of win step mis maf r2 ls "init_state win"] by auto
    from read_lines_append_error [OF x, of rest] x ne
    show "readVcf win step mis maf r2 (ls @ rest) = readVcf win step mis maf r2 ls"
      by (simp add: readVcf_def)
  qed
  from a b c d e show ?thesis by blast
qed

lemmas run_eval =
  estLD_eval ploidy_stop_def read_alleles.simps read_hap_def prefilter_def dbl_lt_def
  init_state_def blank_def print_kept_def advance_def flush_def evaluate_def set_slot_def
  chr_change_def eval_due_def place_def begin_row_def end_tokens_def tombstone_def zero_tally_def
  read_line_def readVcf_def kept_def
  row_a_def row_b_def row_c_def row_bad_def row_gone_def

theorem bad_token_aborts_run_witness:
  "bad_token ''0/2''
   \<and> read_hap ''1'' 20 ''0/2'' zero_tally = Inl (UnknownAlleles ''1'' 20)
   \<and> readVcf 3 1 (3 / 5) (1 / 20) (1 / 10) [row_a, row_bad] = Inl (UnknownAlleles ''1'' 20, [])
   \<and> readVcf 3 1 (3 / 5) (1 / 20) (1 / 10) ([row_a, row_bad] @ [row_b])
       = readVcf 3 1 (3 / 5) (1 / 20) (1 / 10) [row_a, row_bad]"
proof -
  have bad: "bad_token ''0/2''" by (simp add: token_eval)
  have ex: "\<exists>l \<in> set [row_a, row_bad]. \<exists>h \<in> set (l_haps l). bad_token h"
    using bad by (simp add: row_bad_def)
  have len: "length ''0/2'' \<in> {3, 7, 11, 15 :: nat}" by simp
  note t = bad_token_aborts_run [of "''1''" 20 "''0/2''" zero_tally _ 3 1 "3 / 5" "1 / 20" "1 / 10"
      "[row_a, row_bad]" _ _ "[row_b]"]
  from t bad obtain e where e: "read_hap ''1'' 20 ''0/2'' zero_tally = Inl e" by blast
  from t [of e] e len have e1: "e = UnknownAlleles ''1'' 20" by simp
  from t ex obtain e2 out where r: "readVcf 3 1 (3 / 5) (1 / 20) (1 / 10) [row_a, row_bad] = Inl (e2, out)"
    by blast
  have r': "readVcf 3 1 (3 / 5) (1 / 20) (1 / 10) [row_a, row_bad] = Inl (UnknownAlleles ''1'' 20, [])"
    by (simp add: run_eval)
  from t ex have ap: "readVcf 3 1 (3 / 5) (1 / 20) (1 / 10) ([row_a, row_bad] @ [row_b])
       = readVcf 3 1 (3 / 5) (1 / 20) (1 / 10) [row_a, row_bad]" by blast
  from bad e e1 r' ap show ?thesis by simp
qed

lemma chr_change_counters:
  "(win_n (chr_change win r2 c st), win_i (chr_change win r2 c st), step_i (chr_change win r2 c st))
   = (if 0 < win_n st \<and> chr (snps st ! 0) \<noteq> c then (0, 0, 0) else (win_n st, win_i st, step_i st))"
  by (simp add: chr_change_def)

lemma begin_row_ind_n [simp]: "ind_n (begin_row win r2 l st) = ind_n st"
  by (simp add: begin_row_def)

lemma chr_zeroed_slot: "chr ((snps (set_slot (\<lambda>s. s\<lparr>geno := []\<rparr>) st)) ! k) = chr (snps st ! k)"
proof (cases "win_i st < length (snps st)")
  case True
  then show ?thesis by (simp add: set_slot_def nth_list_update)
next
  case False
  then show ?thesis by (simp add: set_slot_def list_update_beyond)
qed

lemma begin_row_counters:
  "(win_n (begin_row win r2 l st), win_i (begin_row win r2 l st), step_i (begin_row win r2 l st))
   = (if 0 < win_n st \<and> chr (snps st ! 0) \<noteq> l_chr l
      then (0, 0, 0) else (win_n st, win_i st, step_i st))"
  using chr_change_counters [of win r2 "l_chr l" "set_slot (\<lambda>s. s\<lparr>geno := []\<rparr>) st"]
  by (simp add: begin_row_def chr_zeroed_slot)

lemma end_tokens_fields [simp]:
  "win_n (end_tokens t st) = win_n st" "win_i (end_tokens t st) = win_i st"
  "step_i (end_tokens t st) = step_i st" "printed (end_tokens t st) = printed st"
  "snp_i (end_tokens t st) = snp_i st"
  "ind_n (end_tokens t st) = (if ind_n st = 0 then length (t_geno t) else ind_n st)"
  "length (snps (end_tokens t st)) = length (snps st)"
  by (simp_all add: end_tokens_def)

lemma tombstone_fields [simp]:
  "win_n (tombstone st) = win_n st" "win_i (tombstone st) = win_i st"
  "step_i (tombstone st) = step_i st" "printed (tombstone st) = printed st"
  "snp_i (tombstone st) = snp_i st" "ind_n (tombstone st) = ind_n st"
  "length (snps (tombstone st)) = length (snps st)"
  by (simp_all add: tombstone_def)

lemma place_counters:
  "win_n (place win step r2 st) = (if win_n st < win - 1 then win_n st + 1 else win_n st)"
  "step_i (place win step r2 st) = (if eval_due win step st then 1 else step_i st + 1)"
  "win_i (place win step r2 st) = (if win_i st + 1 = win then 0 else win_i st + 1)"
  by (simp_all add: place_def Let_def advance_def)

lemma all_missing_filter: "length (filter P xs) \<noteq> length xs \<Longrightarrow> \<exists>x \<in> set xs. \<not> P x"
  by (induction xs) (auto split: if_splits)

text \<open>
  Claim C10, for rows that have as many genotype columns as the run has individuals (the
  first row, which fixes \<^verbatim>\<open>ind_n\<close>, or a row with \<^verbatim>\<open>ind_n\<close> columns). Such a row in which
  all individuals are missing is tombstoned by the missing-data branch for every \<open>mis\<close>
  and \<open>maf\<close>; and whenever the missing-data branch is not taken on such a row,
  \<^verbatim>\<open>hap_i\<close> is positive, so the frequency test does not divide by zero.
\<close>

theorem all_missing_site_is_dropped:
  assumes "ind_n st = 0 \<or> ind_n st = length (l_haps l)"
  shows "((\<forall>h \<in> set (l_haps l). is_missing h) \<longrightarrow>
            prefilter mis maf
              (zero_tally\<lparr>t_geno := replicate (length (l_haps l)) (- 1),
                          mis_i := real (length (l_haps l))\<rparr>) (length (l_haps l)) = DropMis
            \<and> read_line win step mis maf r2 l st =
                Inr (tombstone (end_tokens
                  (zero_tally\<lparr>t_geno := replicate (length (l_haps l)) (- 1),
                              mis_i := real (length (l_haps l))\<rparr>) (begin_row win r2 l st))))
       \<and> (read_haps (l_chr l) (l_pos l) (l_haps l) zero_tally = Inr t
            \<and> prefilter mis maf t (ind_n (end_tokens t (begin_row win r2 l st))) \<noteq> DropMis
          \<longrightarrow> 0 < hap_i t)"
proof -
  let ?n = "length (l_haps l)"
  let ?t = "zero_tally\<lparr>t_geno := replicate ?n (- 1), mis_i := real ?n\<rparr>"
  have a: "(\<forall>h \<in> set (l_haps l). is_missing h) \<longrightarrow>
            prefilter mis maf ?t ?n = DropMis
            \<and> read_line win step mis maf r2 l st = Inr (tombstone (end_tokens ?t (begin_row win r2 l st)))"
  proof
    assume m: "\<forall>h \<in> set (l_haps l). is_missing h"
    have rh: "read_haps (l_chr l) (l_pos l) (l_haps l) zero_tally = Inr ?t"
      using read_haps_all_missing [OF m, of "l_chr l" "l_pos l" zero_tally]
      by (simp add: zero_tally_def)
    have n: "ind_n (end_tokens ?t (begin_row win r2 l st)) = ?n"
      using assms by auto
    have pf: "prefilter mis maf ?t ?n = DropMis"
      by (simp add: prefilter_def)
    have "read_line win step mis maf r2 l st = Inr (tombstone (end_tokens ?t (begin_row win r2 l st)))"
      unfolding read_line_def Let_def by (simp only: rh n pf sum.case verdict.case)
    with pf show "prefilter mis maf ?t ?n = DropMis
            \<and> read_line win step mis maf r2 l st = Inr (tombstone (end_tokens ?t (begin_row win r2 l st)))"
      by simp
  qed
  have b: "read_haps (l_chr l) (l_pos l) (l_haps l) zero_tally = Inr t
            \<and> prefilter mis maf t (ind_n (end_tokens t (begin_row win r2 l st))) \<noteq> DropMis
          \<longrightarrow> 0 < hap_i t"
  proof
    assume h: "read_haps (l_chr l) (l_pos l) (l_haps l) zero_tally = Inr t
            \<and> prefilter mis maf t (ind_n (end_tokens t (begin_row win r2 l st))) \<noteq> DropMis"
    then have rh: "read_haps (l_chr l) (l_pos l) (l_haps l) zero_tally = Inr t"
      and pf: "prefilter mis maf t (ind_n (end_tokens t (begin_row win r2 l st))) \<noteq> DropMis"
      by simp_all
    note tl = read_haps_tally [OF rh]
    from tl have len: "length (t_geno t) = ?n" by (simp add: zero_tally_def)
    from assms len have n: "ind_n (end_tokens t (begin_row win r2 l st)) = ?n" by auto
    from pf n have "mis_i t \<noteq> real ?n"
      by (auto simp: prefilter_def split: if_splits)
    with tl have "length (filter is_missing (l_haps l)) \<noteq> ?n" by (auto simp: zero_tally_def)
    from all_missing_filter [OF this] tl show "0 < hap_i t" by (simp add: zero_tally_def)
  qed
  from a b show ?thesis by simp
qed

theorem all_missing_site_is_dropped_witness:
  "ind_n (init_state 3) = 0
   \<and> is_missing ''./.'' \<and> is_missing ''.''
   \<and> prefilter 0 (1 / 20) \<lparr>t_geno = [- 1, - 1, - 1], mis_i = 3, alt_i = 0, hap_i = 0\<rparr> 3 = DropMis
   \<and> kept (read_line 3 1 0 (1 / 20) (1 / 10) row_gone (init_state 3)) = []
   \<and> read_haps ''1'' 10 (l_haps row_a) zero_tally = Inr \<lparr>t_geno = [0, 1, 2], mis_i = 0, alt_i = 3, hap_i = 6\<rparr>
   \<and> prefilter 0 (1 / 20) \<lparr>t_geno = [0, 1, 2], mis_i = 0, alt_i = 3, hap_i = 6\<rparr> 3 = Pass
   \<and> (0 :: real) < hap_i \<lparr>t_geno = [0, 1, 2], mis_i = 0, alt_i = 3, hap_i = 6\<rparr>"
proof -
  have h: "ind_n (init_state 3) = 0 \<or> ind_n (init_state 3) = length (l_haps row_gone)"
    by (simp add: init_state_def)
  have m: "\<forall>h \<in> set (l_haps row_gone). is_missing h"
    by (simp add: row_gone_def is_missing_def)
  have e: "zero_tally\<lparr>t_geno := replicate (length (l_haps row_gone)) (- 1),
                      mis_i := real (length (l_haps row_gone))\<rparr>
           = \<lparr>t_geno = [- 1, - 1, - 1], mis_i = 3, alt_i = 0, hap_i = 0\<rparr>"
    by (simp add: zero_tally_def row_gone_def eval_nat_numeral)
  have len3: "length (l_haps row_gone) = 3" by (simp add: row_gone_def)
  from all_missing_site_is_dropped [OF h, of 0 "1 / 20" 3 1 "1 / 10"] m
  have "prefilter 0 (1 / 20)
          (zero_tally\<lparr>t_geno := replicate (length (l_haps row_gone)) (- 1),
                      mis_i := real (length (l_haps row_gone))\<rparr>) (length (l_haps row_gone)) = DropMis
        \<and> read_line 3 1 0 (1 / 20) (1 / 10) row_gone (init_state 3) =
            Inr (tombstone (end_tokens
              (zero_tally\<lparr>t_geno := replicate (length (l_haps row_gone)) (- 1),
                          mis_i := real (length (l_haps row_gone))\<rparr>)
              (begin_row 3 (1 / 10) row_gone (init_state 3))))"
    by blast
  then have d: "prefilter 0 (1 / 20) \<lparr>t_geno = [- 1, - 1, - 1], mis_i = 3, alt_i = 0, hap_i = 0\<rparr> 3 = DropMis"
    and r: "read_line 3 1 0 (1 / 20) (1 / 10) row_gone (init_state 3) =
         Inr (tombstone (end_tokens \<lparr>t_geno = [- 1, - 1, - 1], mis_i = 3, alt_i = 0, hap_i = 0\<rparr>
                (begin_row 3 (1 / 10) row_gone (init_state 3))))"
    by (simp_all add: len3 zero_tally_def numeral_3_eq_3)
  have k: "kept (read_line 3 1 0 (1 / 20) (1 / 10) row_gone (init_state 3)) = []"
    by (simp only: r kept_def sum.case) (simp add: begin_row_def chr_change_def init_state_def)
  have ra: "read_haps ''1'' 10 (l_haps row_a) zero_tally = Inr \<lparr>t_geno = [0, 1, 2], mis_i = 0, alt_i = 3, hap_i = 6\<rparr>"
    by (simp add: run_eval)
  have pa: "prefilter 0 (1 / 20) \<lparr>t_geno = [0, 1, 2], mis_i = 0, alt_i = 3, hap_i = 6\<rparr> 3 = Pass"
    by (simp add: prefilter_def dbl_lt_def)
  have i: "ind_n (init_state 3) = 0" by (simp add: init_state_def)
  have im: "is_missing ''./.'' \<and> is_missing ''.''" by (simp add: is_missing_def)
  from i im d k ra pa show ?thesis by simp
qed

lemmas short_eval = run_eval row_five_def row_short_def tally_five_def tally_short_def

lemma row_five_line:
  "read_line 3 1 (3 / 5) (1 / 20) (1 / 10) row_five (init_state 3)
     = Inr (place 3 1 (1 / 10) (end_tokens tally_five (begin_row 3 (1 / 10) row_five (init_state 3))))"
proof -
  have rh: "read_haps (l_chr row_five) (l_pos row_five) (l_haps row_five) zero_tally = Inr tally_five"
    by (simp add: row_five_def tally_five_def zero_tally_def ploidy_stop_def read_alleles.simps read_hap_def)
  have pf: "prefilter (3 / 5) (1 / 20) tally_five
              (ind_n (end_tokens tally_five (begin_row 3 (1 / 10) row_five (init_state 3)))) = Pass"
    by (simp add: prefilter_def dbl_lt_def tally_five_def init_state_def)
  show ?thesis
    unfolding read_line_def Let_def by (simp only: rh pf sum.case verdict.case)
qed

lemma row_five_ind_n:
  "ind_n (place 3 1 (1 / 10) (end_tokens tally_five (begin_row 3 (1 / 10) row_five (init_state 3)))) = 5"
  by (simp add: short_eval)

lemma row_short_tally:
  "read_haps (l_chr row_short) (l_pos row_short) (l_haps row_short) zero_tally = Inr tally_short"
  by (simp add: row_short_def tally_short_def zero_tally_def read_hap_def is_missing_def)

lemma row_short_filter: "prefilter (3 / 5) (1 / 20) tally_short 5 = Pass"
  by (simp add: prefilter_def dbl_lt_def tally_short_def)

lemma row_short_line:
  "read_line 3 1 (3 / 5) (1 / 20) (1 / 10) row_short
       (place 3 1 (1 / 10) (end_tokens tally_five (begin_row 3 (1 / 10) row_five (init_state 3))))
     = Inr (place 3 1 (1 / 10) (end_tokens tally_short (begin_row 3 (1 / 10) row_short
         (place 3 1 (1 / 10) (end_tokens tally_five (begin_row 3 (1 / 10) row_five (init_state 3)))))))"
proof -
  let ?S = "place 3 1 (1 / 10) (end_tokens tally_five (begin_row 3 (1 / 10) row_five (init_state 3)))"
  have n: "ind_n (end_tokens tally_short (begin_row 3 (1 / 10) row_short ?S)) = 5"
    using row_five_ind_n by simp
  have pf: "prefilter (3 / 5) (1 / 20) tally_short
              (ind_n (end_tokens tally_short (begin_row 3 (1 / 10) row_short ?S))) = Pass"
    by (simp only: n row_short_filter)
  show ?thesis
    unfolding read_line_def Let_def by (simp only: row_short_tally pf sum.case verdict.case)
qed

lemma short_run:
  "kept (readVcf 3 1 (3 / 5) (1 / 20) (1 / 10) [row_five, row_short]) = [(''1'', 10), (''1'', 20)]"
  by (simp add: short_eval is_missing_def)

text \<open>
  Claim C10 as stated fails for a row with fewer genotype columns than the run has
  individuals: in a run of five individuals a later row whose only genotype column is
  missing has \<^verbatim>\<open>mis_i = 1\<close> and \<^verbatim>\<open>ind_n = 5\<close>, so the missing-data branch is not taken
  at \<^verbatim>\<open>-mis 0.6\<close>; the frequency test divides \<^verbatim>\<open>alt_i = 0\<close> by \<^verbatim>\<open>hap_i = 0\<close>, both
  comparisons with the NaN are false, and the row is placed and printed.
\<close>

theorem short_row_all_missing_counterexample:
  "list_all is_missing (l_haps row_short)
   \<and> read_line 3 1 (3 / 5) (1 / 20) (1 / 10) row_five (init_state 3)
       = Inr (place 3 1 (1 / 10) (end_tokens tally_five (begin_row 3 (1 / 10) row_five (init_state 3))))
   \<and> ind_n (place 3 1 (1 / 10) (end_tokens tally_five (begin_row 3 (1 / 10) row_five (init_state 3)))) = 5
   \<and> read_haps (l_chr row_short) (l_pos row_short) (l_haps row_short) zero_tally = Inr tally_short
   \<and> hap_i tally_short = 0
   \<and> prefilter (3 / 5) (1 / 20) tally_short 5 = Pass
   \<and> read_line 3 1 (3 / 5) (1 / 20) (1 / 10) row_short
         (place 3 1 (1 / 10) (end_tokens tally_five (begin_row 3 (1 / 10) row_five (init_state 3))))
       = Inr (place 3 1 (1 / 10) (end_tokens tally_short (begin_row 3 (1 / 10) row_short
           (place 3 1 (1 / 10) (end_tokens tally_five (begin_row 3 (1 / 10) row_five (init_state 3)))))))
   \<and> kept (readVcf 3 1 (3 / 5) (1 / 20) (1 / 10) [row_five, row_short]) = [(''1'', 10), (''1'', 20)]"
proof -
  have m: "list_all is_missing (l_haps row_short)"
    by (simp add: row_short_def is_missing_def)
  have h: "hap_i tally_short = 0" by (simp add: tally_short_def)
  from m h row_five_line row_five_ind_n row_short_tally row_short_filter row_short_line short_run
  show ?thesis by (simp only: simp_thms)
qed

lemma step_cycle_eval_due:
  "step_cycle win st \<Longrightarrow> eval_due win win st \<longleftrightarrow> win_i st = win - 1"
  by (auto simp: step_cycle_def eval_due_def)

lemma step_cycle_init: "0 < win \<Longrightarrow> step_cycle win (init_state win)"
  by (simp add: step_cycle_def init_state_def)

lemma step_cycle_begin_row:
  assumes "0 < win" and "step_cycle win st"
  shows "step_cycle win (begin_row win r2 l st)"
proof -
  from begin_row_counters [of win r2 l st]
  have "win_n (begin_row win r2 l st) = 0 \<and> win_i (begin_row win r2 l st) = 0
          \<and> step_i (begin_row win r2 l st) = 0
        \<or> win_n (begin_row win r2 l st) = win_n st \<and> win_i (begin_row win r2 l st) = win_i st
          \<and> step_i (begin_row win r2 l st) = step_i st"
    by (auto split: if_splits)
  with assms show ?thesis by (auto simp: step_cycle_def)
qed

lemma step_cycle_end_tokens: "step_cycle win (end_tokens t st) = step_cycle win st"
  by (simp add: step_cycle_def)

lemma step_cycle_tombstone: "step_cycle win (tombstone st) = step_cycle win st"
  by (simp add: step_cycle_def)

lemma step_cycle_place:
  assumes "step_cycle win st"
  shows "step_cycle win (place win win r2 st)"
proof -
  note ed = step_cycle_eval_due [OF assms]
  from assms show ?thesis
    unfolding step_cycle_def place_counters ed by auto
qed

lemma step_cycle_read_line:
  assumes "0 < win" and "step_cycle win st" and "read_line win win mis maf r2 l st = Inr st'"
  shows "step_cycle win st'"
proof -
  note b = step_cycle_begin_row [OF assms(1,2), of r2 l]
  from assms(3) obtain t where
    "st' = tombstone (end_tokens t (begin_row win r2 l st))
     \<or> st' = place win win r2 (end_tokens t (begin_row win r2 l st))"
    by (auto simp: read_line_def Let_def split: sum.splits verdict.splits)
  with b show ?thesis
    by (auto simp: step_cycle_tombstone step_cycle_end_tokens intro: step_cycle_place)
qed

lemma step_cycle_read_lines:
  "0 < win \<Longrightarrow> step_cycle win st \<Longrightarrow> read_lines win win mis maf r2 ls st = Inr st' \<Longrightarrow>
   step_cycle win st'"
proof (induction ls arbitrary: st)
  case Nil
  then show ?case by simp
next
  case (Cons l ls)
  from Cons.prems(3) obtain st1 where l: "read_line win win mis maf r2 l st = Inr st1"
    and r: "read_lines win win mis maf r2 ls st1 = Inr st'"
    by (cases "read_line win win mis maf r2 l st") simp_all
  from step_cycle_read_line [OF Cons.prems(1,2) l] have "step_cycle win st1" .
  from Cons.IH [OF Cons.prems(1) this r] show ?case .
qed

text \<open>
  Claim C6, amended. When the step size equals the window size, a placement triggers an
  evaluation exactly when the cursor is at the last slot of the window, that is once in
  \<open>win\<close> placements; every placement evaluates only for \<open>win = 1\<close>.
\<close>

theorem equal_step_evaluates_at_last_slot:
  assumes "0 < win" and "read_lines win win mis maf r2 ls (init_state win) = Inr st"
  shows "(eval_due win win (end_tokens t (begin_row win r2 l st))
            \<longleftrightarrow> win_i (end_tokens t (begin_row win r2 l st)) = win - 1)
       \<and> (win = 1 \<longrightarrow> eval_due win win (end_tokens t (begin_row win r2 l st)))"
proof -
  from step_cycle_read_lines [OF assms(1) step_cycle_init [OF assms(1)] assms(2)]
  have "step_cycle win st" .
  from step_cycle_begin_row [OF assms(1) this, of r2 l]
  have sc: "step_cycle win (end_tokens t (begin_row win r2 l st))"
    by (simp add: step_cycle_end_tokens)
  note ed = step_cycle_eval_due [OF sc]
  from sc have "win = 1 \<longrightarrow> win_i (end_tokens t (begin_row win r2 l st)) = win - 1"
    by (auto simp: step_cycle_def)
  with ed show ?thesis by blast
qed

lemma row_a_line: "read_line 2 2 (3 / 5) (1 / 20) (1 / 10) row_a (init_state 2)
       = Inr (place 2 2 (1 / 10) (end_tokens tally_a (begin_row 2 (1 / 10) row_a (init_state 2))))"
proof -
  have rh: "read_haps (l_chr row_a) (l_pos row_a) (l_haps row_a) zero_tally = Inr tally_a"
    by (simp add: row_a_def tally_a_def zero_tally_def ploidy_stop_def read_alleles.simps read_hap_def)
  have pf: "prefilter (3 / 5) (1 / 20) tally_a (ind_n (end_tokens tally_a (begin_row 2 (1 / 10) row_a (init_state 2)))) = Pass"
    by (simp add: prefilter_def dbl_lt_def tally_a_def init_state_def)
  show ?thesis
    unfolding read_line_def Let_def by (simp only: rh pf sum.case verdict.case)
qed

text \<open>
  Claim C6 as stated fails: with window size and step size 2 the first row passes the
  filters and is placed without an evaluation.
\<close>

theorem equal_step_first_placement_counterexample:
  "read_line 2 2 (3 / 5) (1 / 20) (1 / 10) row_a (init_state 2)
     = Inr (place 2 2 (1 / 10) (end_tokens tally_a (begin_row 2 (1 / 10) row_a (init_state 2))))
   \<and> \<not> eval_due 2 2 (end_tokens tally_a (begin_row 2 (1 / 10) row_a (init_state 2)))"
proof -
  have "\<not> eval_due 2 2 (end_tokens tally_a (begin_row 2 (1 / 10) row_a (init_state 2)))"
    using begin_row_counters [of 2 "1 / 10" row_a "init_state 2"]
    by (simp add: eval_due_def init_state_def)
  with row_a_line show ?thesis by simp
qed

theorem equal_step_evaluates_at_last_slot_witness:
  "(0 :: nat) < 2
   \<and> read_lines 2 2 (3 / 5) (1 / 20) (1 / 10) [row_a] (init_state 2)
       = Inr (place 2 2 (1 / 10) (end_tokens tally_a (begin_row 2 (1 / 10) row_a (init_state 2))))
   \<and> win_i (end_tokens tally_b (begin_row 2 (1 / 10) row_b
        (place 2 2 (1 / 10) (end_tokens tally_a (begin_row 2 (1 / 10) row_a (init_state 2)))))) = 2 - 1
   \<and> eval_due 2 2 (end_tokens tally_b (begin_row 2 (1 / 10) row_b
        (place 2 2 (1 / 10) (end_tokens tally_a (begin_row 2 (1 / 10) row_a (init_state 2))))))"
proof -
  let ?st = "place 2 2 (1 / 10) (end_tokens tally_a (begin_row 2 (1 / 10) row_a (init_state 2)))"
  have h1: "(0 :: nat) < 2" by simp
  have h2: "read_lines 2 2 (3 / 5) (1 / 20) (1 / 10) [row_a] (init_state 2) = Inr ?st"
    by (simp add: row_a_line)
  have c0: "win_n (begin_row 2 (1 / 10) row_a (init_state 2)) = 0
      \<and> win_i (begin_row 2 (1 / 10) row_a (init_state 2)) = 0"
    using begin_row_counters [of 2 "1 / 10" row_a "init_state 2"] by (simp add: init_state_def)
  have c1: "win_n ?st = 1 \<and> win_i ?st = 1"
    using c0 by (simp add: place_counters)
  have s0: "chr (snps ?st ! 0) = ''1''"
    by (simp add: place_def Let_def eval_due_def advance_def print_kept_def end_tokens_def
         begin_row_def chr_change_def set_slot_def init_state_def blank_def row_a_def)
  have wi: "win_i (end_tokens tally_b (begin_row 2 (1 / 10) row_b ?st)) = 2 - 1"
    using begin_row_counters [of 2 "1 / 10" row_b ?st] c1 s0 by (simp add: row_b_def)
  from equal_step_evaluates_at_last_slot [OF h1 h2, of tally_b row_b] wi
  have "eval_due 2 2 (end_tokens tally_b (begin_row 2 (1 / 10) row_b ?st))" by simp
  with h1 h2 wi show ?thesis by simp
qed

text \<open>
  Claim C1 as stated fails: the run on the three sites does not keep the set \<open>{30}\<close>,
  neither when all three pass the filters (\<open>maf = 0\<close>) nor with the frequency floor
  \<open>0.05\<close> that \<^verbatim>\<open>openFiles\<close> enforces, under which the constant third site is filtered out.
\<close>

theorem pruning_scenario_counterexample:
  "set (map snd (kept (readVcf 3 1 (3 / 5) 0 (1 / 10) [row_a, row_b, row_c]))) \<noteq> {30}
   \<and> set (map snd (kept (readVcf 3 1 (3 / 5) (1 / 20) (1 / 10) [row_a, row_b, row_c]))) \<noteq> {30}"
  by (simp add: run_eval)

text \<open>
  Claim C1, amended. When the three sites pass the filters the run keeps the sites at 20
  and 30: the site at 10 is rejected for its pair with 20, and the only pair the site at
  20 is scanned against, the one with 30, gives NaN. With the frequency floor \<open>0.05\<close> the
  third site is filtered out and the run keeps the site at 20 alone.
\<close>

theorem pruning_scenario_keeps_second_site:
  "kept (readVcf 3 1 (3 / 5) 0 (1 / 10) [row_a, row_b, row_c]) = [(''1'', 20), (''1'', 30)]
   \<and> kept (readVcf 3 1 (3 / 5) (1 / 20) (1 / 10) [row_a, row_b, row_c]) = [(''1'', 20)]"
  by (simp add: run_eval)

section \<open>Runs without conflicts keep every site\<close>

lemma owed_append: "owed (a @ b) = owed a + owed b"
  by (simp add: owed_def)

lemma owed_single: "owed [s] = (if dead s then {#} else {#site s#})"
  by (simp add: owed_def)

lemma owed_update:
  assumes "i < length ws"
  shows "owed (ws[i := v]) + owed [ws ! i] = owed ws + owed [v]"
proof -
  have a: "ws = take i ws @ [ws ! i] @ drop (Suc i) ws"
    using assms by (simp add: id_take_nth_drop [symmetric])
  have b: "ws[i := v] = take i ws @ [v] @ drop (Suc i) ws"
    using assms by (simp add: upd_conv_take_nth_drop)
  have "owed ws = owed (take i ws) + owed [ws ! i] + owed (drop (Suc i) ws)"
    by (subst a) (simp only: owed_append add.assoc)
  moreover have "owed (ws[i := v]) = owed (take i ws) + owed [v] + owed (drop (Suc i) ws)"
    by (subst b) (simp only: owed_append add.assoc)
  ultimately show ?thesis by (simp add: ac_simps)
qed

lemma owed_cong:
  assumes "length ws' = length ws"
    and "\<forall>k < length ws. dead (ws' ! k) = dead (ws ! k) \<and> site (ws' ! k) = site (ws ! k)"
  shows "owed ws' = owed ws"
  using assms
proof (induction ws arbitrary: ws')
  case Nil
  then show ?case by (simp add: owed_def)
next
  case (Cons s ws)
  then obtain s' ws2 where e: "ws' = s' # ws2" by (cases ws') simp_all
  from Cons.prems e have len: "length ws2 = length ws" by simp
  from Cons.prems(2) e have h: "dead s' = dead s \<and> site s' = site s" by auto
  have r: "\<forall>k < length ws. dead (ws2 ! k) = dead (ws ! k) \<and> site (ws2 ! k) = site (ws ! k)"
  proof (intro allI impI)
    fix k assume "k < length ws"
    then have "Suc k < length (s # ws)" by simp
    with Cons.prems(2) e show "dead (ws2 ! k) = dead (ws ! k) \<and> site (ws2 ! k) = site (ws ! k)"
      by fastforce
  qed
  from Cons.IH [OF len r] h show ?case by (simp add: e owed_def)
qed

lemma owed_all_dead: "\<forall>s \<in> set ws. dead s \<Longrightarrow> owed ws = {#}"
  by (simp add: owed_def)

subsection \<open>Pairs that cannot conflict\<close>

lemma spread_zeros: "\<forall>x \<in> set xs. x = 0 \<Longrightarrow> spread xs = 0"
proof -
  assume z: "\<forall>x \<in> set xs. x = 0"
  then have "sum_list xs = 0" by (induction xs) simp_all
  moreover from z have "sum_list (map (\<lambda>x. x * x) xs) = 0" by (induction xs) simp_all
  ultimately show ?thesis by (simp add: spread_def)
qed

lemma estR2_zero_left: "estR2 [] g n = NaN"
proof -
  have "\<forall>x \<in> set (map fst (joint [] g n)). x = 0"
    by (auto simp: joint_def geno_at_def)
  then have "spread (map fst (joint [] g n)) = 0" by (rule spread_zeros)
  then have "pearson_den [] g n \<le> 0" by (simp add: pearson_den_def)
  then show ?thesis by (rule estR2_degenerate)
qed

lemma estR2_zero_right: "estR2 g [] n = NaN"
proof -
  have "\<forall>x \<in> set (map snd (joint g [] n)). x = 0"
    by (auto simp: joint_def geno_at_def)
  then have "spread (map snd (joint g [] n)) = 0" by (rule spread_zeros)
  then have "pearson_den g [] n \<le> 0" by (simp add: pearson_den_def)
  then show ?thesis by (rule estR2_degenerate)
qed

lemma estR2_no_individuals: "estR2 g1 g2 0 = NaN"
proof -
  have "pearson_den g1 g2 0 \<le> 0" by (simp add: pearson_den_def joint_def spread_def)
  then show ?thesis by (rule estR2_degenerate)
qed

subsection \<open>The evaluator on a window without conflicts\<close>

lemma estLD_calm:
  assumes "w \<le> length ws" and "\<forall>i < w. \<not> conflict ws w n r2 i" and "k < length ws"
  shows "estLD ws w n r2 ! k = (if k < w then settle (ws ! k) else ws ! k)"
proof -
  from estLD_char(1) [OF assms(1), of n r2] assms(3)
  have f: "chr (estLD ws w n r2 ! k) = chr (ws ! k)" "geno (estLD ws w n r2 ! k) = geno (ws ! k)"
    "pos (estLD ws w n r2 ! k) = pos (ws ! k)"
    by (simp_all add: same_data_def)
  have o: "ok (estLD ws w n r2 ! k) =
        (if k < w \<and> chr (ws ! k) \<noteq> [] then decision ws w n r2 k else ok (ws ! k))"
    by (rule estLD_char(2) [OF assms(1,3)])
  show ?thesis
  proof (cases "k < w \<and> chr (ws ! k) \<noteq> []")
    case True
    with assms(2) have "decision ws w n r2 k = (if ok (ws ! k) = - 1 \<or> ok (ws ! k) = 1 then 1 else 0)"
      by (simp add: decision_def)
    with o True have "ok (estLD ws w n r2 ! k) = (if ok (ws ! k) = - 1 \<or> ok (ws ! k) = 1 then 1 else 0)"
      by simp
    with f True show ?thesis by (simp add: settle_def)
  next
    case False
    with o have "ok (estLD ws w n r2 ! k) = ok (ws ! k)" by simp
    with f have "estLD ws w n r2 ! k = ws ! k" by simp
    with False show ?thesis by (auto simp: settle_def)
  qed
qed

lemma settle_props:
  "chr (settle s) = chr s" "pos (settle s) = pos s" "geno (settle s) = geno s"
  "site (settle s) = site s"
  "wf_slot s \<Longrightarrow> wf_slot (settle s)"
  "wf_slot s \<Longrightarrow> dead (settle s) = dead s"
  "wf_slot s \<Longrightarrow> ok (settle s) \<noteq> - 1 \<or> chr s = []"
  by (auto simp: settle_def site_def wf_slot_def dead_def)

lemma unkeep_props:
  "chr (unkeep s) = chr s" "pos (unkeep s) = pos s" "geno (unkeep s) = geno s"
  "ok (unkeep s) \<noteq> 1"
  "wf_slot s \<Longrightarrow> wf_slot (unkeep s)"
  "ok s \<noteq> 1 \<Longrightarrow> unkeep s = s"
  "unkeep (unkeep s) = unkeep s"
  by (auto simp: unkeep_def wf_slot_def)

lemma unkeep_dead: "wf_slot s \<Longrightarrow> ok s \<noteq> - 1 \<or> chr s = [] \<Longrightarrow> dead (unkeep s)"
  by (auto simp: unkeep_def wf_slot_def dead_def)

lemma print_kept_snps:
  "win_i st < length (snps st) \<Longrightarrow>
   snps (print_kept st) = (snps st)[win_i st := unkeep (snps st ! win_i st)]"
  by (simp add: print_kept_def Let_def unkeep_def)

lemma print_kept_credit:
  assumes "win_i st < length (snps st)" and "wf_slot (snps st ! win_i st)"
  shows "credit (print_kept st) = credit st"
proof (cases "ok (snps st ! win_i st) = 1")
  case False
  then show ?thesis by (simp add: print_kept_def Let_def)
next
  case True
  let ?s = "snps st ! win_i st"
  from True assms(2) have live: "\<not> dead ?s" by (auto simp: wf_slot_def dead_def)
  have d: "dead (?s\<lparr>ok := 0\<rparr>)" by (simp add: dead_def)
  from owed_update [OF assms(1), of "?s\<lparr>ok := 0\<rparr>"] live d
  have "owed ((snps st)[win_i st := ?s\<lparr>ok := 0\<rparr>]) + {#site ?s#} = owed (snps st)"
    by (simp add: owed_single)
  with True show ?thesis
    by (simp add: credit_def print_kept_def Let_def site_def ac_simps)
qed

lemma advance_win_i: "win_i st < win \<Longrightarrow> win_i (advance win st) = (win_i st + 1) mod win"
  by (auto simp: advance_def Let_def mod_Suc)

lemma credit_advance [simp]: "credit (advance win st) = credit st"
  by (simp add: credit_def)

lemma flush_steps:
  assumes "length (snps st) = win" and "win_i st < win" and "\<forall>s \<in> set (snps st). wf_slot s"
  shows "j \<le> win \<Longrightarrow>
     win_i (((\<lambda>s. advance win (print_kept s)) ^^ j) st) = (win_i st + j) mod win \<and>
     length (snps (((\<lambda>s. advance win (print_kept s)) ^^ j) st)) = win \<and>
     (\<forall>k < win. snps (((\<lambda>s. advance win (print_kept s)) ^^ j) st) ! k =
        (if \<exists>i < j. (win_i st + i) mod win = k then unkeep (snps st ! k) else snps st ! k)) \<and>
     credit (((\<lambda>s. advance win (print_kept s)) ^^ j) st) = credit st"
proof (induction j)
  case 0
  with assms(1,2) show ?case by simp
next
  case (Suc j)
  define s1 where "s1 = ((\<lambda>s. advance win (print_kept s)) ^^ j) st"
  from Suc have jw: "j < win" by simp
  from Suc have c1: "win_i s1 = (win_i st + j) mod win" and l1: "length (snps s1) = win"
    and e1: "\<forall>k < win. snps s1 ! k =
        (if \<exists>i < j. (win_i st + i) mod win = k then unkeep (snps st ! k) else snps st ! k)"
    and cr1: "credit s1 = credit st"
    by (simp_all add: s1_def)
  from jw have wpos: "0 < win" by simp
  from c1 wpos have cw: "win_i s1 < win" by simp
  have wf1: "\<forall>k < win. wf_slot (snps s1 ! k)"
  proof (intro allI impI)
    fix k assume k: "k < win"
    with assms(1,3) have "wf_slot (snps st ! k)" by simp
    with e1 k show "wf_slot (snps s1 ! k)" by (simp add: unkeep_props)
  qed
  have step: "((\<lambda>s. advance win (print_kept s)) ^^ Suc j) st = advance win (print_kept s1)"
    by (simp add: s1_def)
  have cl: "win_i s1 < length (snps s1)" using cw l1 by simp
  have sn: "snps (print_kept s1) = (snps s1)[win_i s1 := unkeep (snps s1 ! win_i s1)]"
    by (rule print_kept_snps [OF cl])
  have a: "win_i (advance win (print_kept s1)) = (win_i st + Suc j) mod win"
    using advance_win_i [of "print_kept s1" win] cw c1 by (simp add: mod_Suc_eq)
  have b: "length (snps (advance win (print_kept s1))) = win"
    by (simp add: sn l1)
  have c: "\<forall>k < win. snps (advance win (print_kept s1)) ! k =
        (if \<exists>i < Suc j. (win_i st + i) mod win = k then unkeep (snps st ! k) else snps st ! k)"
  proof (intro allI impI)
    fix k assume k: "k < win"
    show "snps (advance win (print_kept s1)) ! k =
        (if \<exists>i < Suc j. (win_i st + i) mod win = k then unkeep (snps st ! k) else snps st ! k)"
    proof (cases "k = win_i s1")
      case True
      then have ex: "\<exists>i < Suc j. (win_i st + i) mod win = k" using c1 by auto
      have "snps (advance win (print_kept s1)) ! k = unkeep (snps s1 ! k)"
        using True cl by (simp add: sn)
      also have "\<dots> = unkeep (snps st ! k)"
        using e1 k by (simp add: unkeep_props)
      finally show ?thesis using ex by simp
    next
      case False
      then have "(\<exists>i < Suc j. (win_i st + i) mod win = k) \<longleftrightarrow> (\<exists>i < j. (win_i st + i) mod win = k)"
        using c1 by (auto simp: less_Suc_eq)
      moreover have "snps (advance win (print_kept s1)) ! k = snps s1 ! k"
        using False by (simp add: sn)
      ultimately show ?thesis using e1 k by simp
    qed
  qed
  have d: "credit (advance win (print_kept s1)) = credit st"
    using print_kept_credit [OF cl] wf1 cw cr1 by simp
  from a b c d show ?case by (simp only: step)
qed

lemma ring_covered:
  fixes c k win :: nat
  assumes "c < win" and "k < win"
  shows "\<exists>i < win. (c + i) mod win = k"
proof (cases "c \<le> k")
  case True
  with assms have "k - c < win" "(c + (k - c)) mod win = k" by simp_all
  then show ?thesis by blast
next
  case False
  with assms have "win + k - c < win" "(c + (win + k - c)) mod win = k" by simp_all
  then show ?thesis by blast
qed

lemma flush_result:
  assumes "length (snps st) = win" and "win_i st < win" and "\<forall>s \<in> set (snps st). wf_slot s"
  shows "length (snps (flush win st)) = win"
    and "\<forall>k < win. snps (flush win st) ! k = unkeep (snps st ! k)"
    and "credit (flush win st) = credit st"
  using flush_steps [OF assms, of win] ring_covered [OF assms(2)]
  by (simp_all add: flush_def)

lemma tracked_wf: "tracked seen ws \<Longrightarrow> \<forall>s \<in> set ws. wf_slot s"
  by (auto simp: tracked_def in_set_conv_nth)

lemma tracked_change:
  assumes "tracked seen ws" and "length ws' = length ws" and "set seen \<subseteq> set seen'"
    and "\<forall>k < length ws. chr (ws' ! k) = chr (ws ! k) \<and> pos (ws' ! k) = pos (ws ! k)
          \<and> (geno (ws' ! k) = geno (ws ! k) \<or> geno (ws' ! k) = []) \<and> wf_slot (ws' ! k)"
  shows "tracked seen' ws'"
proof -
  have s: "\<forall>k < length ws. site (ws' ! k) = site (ws ! k)"
    using assms(4) by (simp add: site_def)
  have a: "\<forall>k < length ws'. wf_slot (ws' ! k)" using assms(2,4) by simp
  have b: "\<forall>k < length ws'. chr (ws' ! k) \<noteq> [] \<longrightarrow>
         (\<exists>l \<in> set seen'. site (ws' ! k) = locus l \<and> (geno (ws' ! k) = [] \<or> geno (ws' ! k) = dosages l))"
  proof (intro allI impI)
    fix k assume k: "k < length ws'" and c: "chr (ws' ! k) \<noteq> []"
    from k assms(2) have k': "k < length ws" by simp
    with c assms(4) have "chr (ws ! k) \<noteq> []" by simp
    with assms(1) k' obtain l where l: "l \<in> set seen" "site (ws ! k) = locus l"
      "geno (ws ! k) = [] \<or> geno (ws ! k) = dosages l"
      by (auto simp: tracked_def)
    from l(1) assms(3) have "l \<in> set seen'" by auto
    moreover from l(2) s k' have "site (ws' ! k) = locus l" by simp
    moreover from l(3) assms(4) k' have "geno (ws' ! k) = [] \<or> geno (ws' ! k) = dosages l" by auto
    ultimately show "\<exists>l \<in> set seen'. site (ws' ! k) = locus l \<and> (geno (ws' ! k) = [] \<or> geno (ws' ! k) = dosages l)"
      by blast
  qed
  have c: "\<forall>j < length ws'. \<forall>k < length ws'.
         j \<noteq> k \<and> chr (ws' ! j) \<noteq> [] \<and> chr (ws' ! k) \<noteq> [] \<longrightarrow> site (ws' ! j) \<noteq> site (ws' ! k)"
    using assms(1,2,4) s by (simp add: tracked_def)
  from a b c show ?thesis by (simp add: tracked_def)
qed

lemma tracked_calm:
  assumes "tracked seen ws" and "set seen \<subseteq> set ls" and "quiet r2 N ls" and "n = 0 \<or> n = N"
    and "w \<le> length ws"
  shows "\<forall>i < w. \<not> conflict ws w n r2 i"
proof (intro allI impI notI)
  fix i assume i: "i < w" and "conflict ws w n r2 i"
  then obtain j where j: "Suc i \<le> j" "j < w" and cj: "chr (ws ! j) \<noteq> []"
    and ce: "chr (ws ! j) = chr (ws ! i)"
    and gt: "dbl_gt (estR2 (geno (ws ! i)) (geno (ws ! j)) n) (Fin r2)"
    by (auto simp: conflict_def conflict_at_def)
  from i j assms(5) have il: "i < length ws" and jl: "j < length ws" and ne: "i \<noteq> j" by simp_all
  from cj ce have ci: "chr (ws ! i) \<noteq> []" by simp
  from assms(1) il ci obtain a where a: "a \<in> set seen" "site (ws ! i) = locus a"
    "geno (ws ! i) = [] \<or> geno (ws ! i) = dosages a"
    by (auto simp: tracked_def)
  from assms(1) jl cj obtain b where b: "b \<in> set seen" "site (ws ! j) = locus b"
    "geno (ws ! j) = [] \<or> geno (ws ! j) = dosages b"
    by (auto simp: tracked_def)
  from assms(1) il jl ne ci cj have "site (ws ! i) \<noteq> site (ws ! j)"
    by (simp add: tracked_def)
  with a(2) b(2) ce have pc: "l_chr a = l_chr b" and pp: "l_pos a \<noteq> l_pos b"
    by (auto simp: site_def locus_def)
  have n0: "n \<noteq> 0"
  proof
    assume "n = 0"
    with gt show False by (simp add: estR2_no_individuals)
  qed
  have gi: "geno (ws ! i) \<noteq> []"
  proof
    assume "geno (ws ! i) = []"
    with gt show False by (simp add: estR2_zero_left)
  qed
  have gj: "geno (ws ! j) \<noteq> []"
  proof
    assume "geno (ws ! j) = []"
    with gt show False by (simp add: estR2_zero_right)
  qed
  from a(3) b(3) gi gj n0 assms(4) gt
  have "dbl_gt (estR2 (dosages a) (dosages b) N) (Fin r2)" by simp
  with assms(2,3) a(1) b(1) pc pp show False by (auto simp: quiet_def)
qed

text \<open>Evaluation followed by the flush: every site still owed is printed.\<close>

lemma drain:
  assumes "phase win step st" and "tracked seen (snps st)" and "set seen \<subseteq> set ls"
    and "quiet r2 N ls" and "ind_n st = 0 \<or> ind_n st = N"
  shows "length (snps (flush win (evaluate r2 st))) = win"
    and "\<forall>k < win. dead (snps (flush win (evaluate r2 st)) ! k)"
    and "tracked seen (snps (flush win (evaluate r2 st)))"
    and "credit (flush win (evaluate r2 st)) = credit st"
proof -
  let ?w = "win_n st + 1"
  let ?e = "evaluate r2 st"
  from assms(1) have len: "length (snps st) = win" and cw: "win_i st < win"
    by (simp_all add: phase_def)
  from assms(1) have wl: "?w \<le> length (snps st)" by (auto simp: phase_def)
  note calm = tracked_calm [OF assms(2,3,4,5) wl]
  have wf: "\<forall>k < win. wf_slot (snps st ! k)" using assms(2) len by (simp add: tracked_def)
  have ev: "\<forall>k < win. snps ?e ! k = (if k < ?w then settle (snps st ! k) else snps st ! k)"
    using estLD_calm [OF wl calm] len by (simp add: evaluate_def)
  have elen: "length (snps ?e) = win"
    using estLD_length [OF wl] len by (simp add: evaluate_def)
  have out: "\<forall>k < win. \<not> k < ?w \<longrightarrow> dead (snps st ! k)"
    using assms(1) by (auto simp: phase_def)
  have ewf: "\<forall>k < win. wf_slot (snps ?e ! k)"
    using ev wf by (simp add: settle_props)
  have ewf': "\<forall>s \<in> set (snps ?e). wf_slot s"
    using ewf elen by (auto simp: in_set_conv_nth)
  have ecw: "win_i ?e < win" using cw by simp
  note fl = flush_result [OF elen ecw ewf']
  show "length (snps (flush win ?e)) = win" by (rule fl(1))
  show dd: "\<forall>k < win. dead (snps (flush win ?e) ! k)"
  proof (intro allI impI)
    fix k assume k: "k < win"
    show "dead (snps (flush win ?e) ! k)"
    proof (cases "k < ?w")
      case True
      with ev k have "snps ?e ! k = settle (snps st ! k)" by simp
      moreover from wf k have "wf_slot (snps st ! k)" by simp
      ultimately have "wf_slot (snps ?e ! k)" "ok (snps ?e ! k) \<noteq> - 1 \<or> chr (snps ?e ! k) = []"
        using settle_props(5,7) [of "snps st ! k"] by (simp_all add: settle_props)
      then have "dead (unkeep (snps ?e ! k))" by (rule unkeep_dead)
      with fl(2) k show ?thesis by simp
    next
      case False
      with ev k out have e: "snps ?e ! k = snps st ! k" and d: "dead (snps st ! k)" by simp_all
      from d have "unkeep (snps st ! k) = snps st ! k" by (auto simp: unkeep_def dead_def)
      with fl(2) k e d show ?thesis by simp
    qed
  qed
  have ch: "\<forall>k < length (snps st). chr (snps (flush win ?e) ! k) = chr (snps st ! k)
          \<and> pos (snps (flush win ?e) ! k) = pos (snps st ! k)
          \<and> (geno (snps (flush win ?e) ! k) = geno (snps st ! k) \<or> geno (snps (flush win ?e) ! k) = [])
          \<and> wf_slot (snps (flush win ?e) ! k)"
    using fl(2) ev ewf len by (simp add: unkeep_props settle_props)
  show "tracked seen (snps (flush win ?e))"
    by (rule tracked_change [OF assms(2) _ subset_refl ch]) (simp add: elen len)
  have "owed (snps ?e) = owed (snps st)"
  proof (rule owed_cong)
    show "length (snps ?e) = length (snps st)" using elen len by simp
    show "\<forall>k < length (snps st). dead (snps ?e ! k) = dead (snps st ! k) \<and> site (snps ?e ! k) = site (snps st ! k)"
      using ev wf len by (simp add: settle_props)
  qed
  then have "credit ?e = credit st" by (simp add: credit_def)
  with fl(3) show "credit (flush win ?e) = credit st" by simp
qed

lemma phase_cong:
  assumes "phase win step st"
    and "win_n st' = win_n st" "win_i st' = win_i st" "step_i st' = step_i st"
    and "length (snps st') = length (snps st)"
    and "\<forall>k < win. ok (snps st' ! k) = ok (snps st ! k) \<and> chr (snps st' ! k) = chr (snps st ! k)"
  shows "phase win step st'"
proof -
  from assms(6) have d: "\<forall>k < win. dead (snps st' ! k) = dead (snps st ! k)"
    by (simp add: dead_def)
  from assms(1) have cw: "win_i st < win" by (simp add: phase_def)
  from assms(1) show ?thesis
    unfolding phase_def assms(2-5) using d cw assms(6) by auto
qed

lemma set_slot_nth:
  "k < length (snps st) \<Longrightarrow>
   snps (set_slot f st) ! k = (if k = win_i st then f (snps st ! k) else snps st ! k)"
  by (simp add: set_slot_def nth_list_update)

lemma zero_geno_keeps:
  assumes "phase win step st" and "tracked seen (snps st)"
  shows "phase win step (set_slot (\<lambda>s. s\<lparr>geno := []\<rparr>) st)"
    and "tracked seen (snps (set_slot (\<lambda>s. s\<lparr>geno := []\<rparr>) st))"
    and "credit (set_slot (\<lambda>s. s\<lparr>geno := []\<rparr>) st) = credit st"
proof -
  let ?st = "set_slot (\<lambda>s. s\<lparr>geno := []\<rparr>) st"
  from assms(1) have len: "length (snps st) = win" by (simp add: phase_def)
  have nth: "\<forall>k < win. snps ?st ! k = (if k = win_i st then (snps st ! k)\<lparr>geno := []\<rparr> else snps st ! k)"
    using len by (simp add: set_slot_nth)
  show "phase win step ?st"
    by (rule phase_cong [OF assms(1)]) (simp_all add: nth)
  have wf: "\<forall>k < win. wf_slot (snps st ! k)" using assms(2) len by (simp add: tracked_def)
  show "tracked seen (snps ?st)"
    by (rule tracked_change [OF assms(2) _ subset_refl]) (use nth wf len in \<open>simp_all add: wf_slot_def\<close>)
  have "owed (snps ?st) = owed (snps st)"
    by (rule owed_cong) (use nth len in \<open>simp_all add: dead_def site_def\<close>)
  then show "credit ?st = credit st" by (simp add: credit_def)
qed

lemma chr_change_keeps:
  assumes "phase win step st" and "tracked seen (snps st)" and "set seen \<subseteq> set ls"
    and "quiet r2 N ls" and "ind_n st = 0 \<or> ind_n st = N"
  shows "phase win step (chr_change win r2 c st)"
    and "tracked seen (snps (chr_change win r2 c st))"
    and "credit (chr_change win r2 c st) = credit st"
proof -
  let ?f = "flush win (evaluate r2 st)"
  let ?r = "?f\<lparr>win_n := 0, win_i := 0, step_i := 0\<rparr>"
  let ?z = "set_slot (\<lambda>s. s\<lparr>geno := []\<rparr>) ?r"
  note dr = drain [OF assms]
  from assms(1) have wpos: "0 < win" by (simp add: phase_def)
  have pr: "phase win step ?r"
    using dr(1,2) wpos by (simp add: phase_def)
  have tr: "tracked seen (snps ?r)" using dr(3) by simp
  have cr: "credit ?r = credit st" using dr(4) by (simp add: credit_def)
  note z = zero_geno_keeps [OF pr tr]
  have e: "chr_change win r2 c st = (if 0 < win_n st \<and> chr (snps st ! 0) \<noteq> c then ?z else st)"
    by (simp add: chr_change_def)
  show "phase win step (chr_change win r2 c st)" using z(1) assms(1) by (simp add: e)
  show "tracked seen (snps (chr_change win r2 c st))" using z(2) assms(2) by (simp add: e)
  show "credit (chr_change win r2 c st) = credit st" using z(3) cr by (simp add: e)
qed

lemma begin_keeps:
  assumes "phase win step st" and "tracked seen (snps st)" and "set seen \<subseteq> set ls"
    and "quiet r2 N ls" and "ind_n st = 0 \<or> ind_n st = N"
  shows "phase win step (chr_change win r2 c (set_slot (\<lambda>s. s\<lparr>geno := []\<rparr>) st))"
    and "tracked seen (snps (chr_change win r2 c (set_slot (\<lambda>s. s\<lparr>geno := []\<rparr>) st)))"
    and "credit (chr_change win r2 c (set_slot (\<lambda>s. s\<lparr>geno := []\<rparr>) st)) = credit st"
    and "ind_n (chr_change win r2 c (set_slot (\<lambda>s. s\<lparr>geno := []\<rparr>) st)) = ind_n st"
proof -
  let ?z = "set_slot (\<lambda>s. s\<lparr>geno := []\<rparr>) st"
  note z = zero_geno_keeps [OF assms(1,2)]
  have i: "ind_n ?z = 0 \<or> ind_n ?z = N" using assms(5) by simp
  note c = chr_change_keeps [OF z(1,2) assms(3,4) i, of c]
  show "phase win step (chr_change win r2 c ?z)" by (rule c(1))
  show "tracked seen (snps (chr_change win r2 c ?z))" by (rule c(2))
  show "credit (chr_change win r2 c ?z) = credit st" using c(3) z(3) by simp
  show "ind_n (chr_change win r2 c ?z) = ind_n st" by simp
qed

lemma phase_cursor_dead: "phase win step st \<Longrightarrow> dead (snps st ! win_i st)"
  by (auto simp: phase_def)

lemma ring_apart:
  fixes c e win :: nat
  assumes "c < win" and "0 < e" and "e < win"
  shows "(c + e) mod win \<noteq> c"
proof (cases "c + e < win")
  case True
  with assms show ?thesis by simp
next
  case False
  then have "(c + e) mod win = (c + e - win) mod win" by (simp add: le_mod_geq)
  also have "\<dots> = c + e - win" using assms by simp
  finally show ?thesis using assms False by simp
qed

lemma written_snps:
  "win_i st < length (snps st) \<Longrightarrow>
   snps (end_tokens t (set_slot (\<lambda>s. s\<lparr>chr := c, pos := p, ok := - 1\<rparr>) st))
     = (snps st)[win_i st := \<lparr>pos = p, ok = - 1, geno = t_geno t, chr = c\<rparr>]"
  by (cases "snps st ! win_i st") (simp add: end_tokens_def set_slot_def)

lemma tombstone_snps:
  "win_i st < length (snps st) \<Longrightarrow>
   snps (tombstone (end_tokens t (set_slot (\<lambda>s. s\<lparr>chr := c, pos := p, ok := - 1\<rparr>) st)))
     = (snps st)[win_i st := \<lparr>pos = p, ok = - 1, geno = t_geno t, chr = []\<rparr>]"
  by (cases "snps st ! win_i st") (simp add: tombstone_def end_tokens_def set_slot_def)

lemma tracked_update:
  assumes "tracked seen ws" and "i < length ws" and "set seen \<subseteq> set seen'" and "wf_slot v"
    and "chr v \<noteq> [] \<longrightarrow>
           (\<exists>l \<in> set seen'. site v = locus l \<and> (geno v = [] \<or> geno v = dosages l))
           \<and> (\<forall>k < length ws. k \<noteq> i \<and> chr (ws ! k) \<noteq> [] \<longrightarrow> site (ws ! k) \<noteq> site v)"
  shows "tracked seen' (ws[i := v])"
proof -
  have a: "\<forall>k < length (ws[i := v]). wf_slot (ws[i := v] ! k)"
    using assms(1,2,4) by (auto simp: tracked_def nth_list_update)
  have b: "\<forall>k < length (ws[i := v]). chr (ws[i := v] ! k) \<noteq> [] \<longrightarrow>
         (\<exists>l \<in> set seen'. site (ws[i := v] ! k) = locus l
            \<and> (geno (ws[i := v] ! k) = [] \<or> geno (ws[i := v] ! k) = dosages l))"
  proof (intro allI impI)
    fix k assume k: "k < length (ws[i := v])" and c: "chr (ws[i := v] ! k) \<noteq> []"
    show "\<exists>l \<in> set seen'. site (ws[i := v] ! k) = locus l
            \<and> (geno (ws[i := v] ! k) = [] \<or> geno (ws[i := v] ! k) = dosages l)"
    proof (cases "k = i")
      case True
      with k c assms(5) show ?thesis by simp
    next
      case False
      with k c have "chr (ws ! k) \<noteq> []" and kl: "k < length ws" by simp_all
      with assms(1) obtain l where "l \<in> set seen" "site (ws ! k) = locus l"
        "geno (ws ! k) = [] \<or> geno (ws ! k) = dosages l"
        by (auto simp: tracked_def)
      with assms(3) False show ?thesis by auto
    qed
  qed
  have c: "\<forall>j < length (ws[i := v]). \<forall>k < length (ws[i := v]).
         j \<noteq> k \<and> chr (ws[i := v] ! j) \<noteq> [] \<and> chr (ws[i := v] ! k) \<noteq> []
         \<longrightarrow> site (ws[i := v] ! j) \<noteq> site (ws[i := v] ! k)"
  proof (intro allI impI)
    fix j k assume j: "j < length (ws[i := v])" and k: "k < length (ws[i := v])"
      and h: "j \<noteq> k \<and> chr (ws[i := v] ! j) \<noteq> [] \<and> chr (ws[i := v] ! k) \<noteq> []"
    from j k have jl: "j < length ws" and kl: "k < length ws" by simp_all
    from h have jk: "j \<noteq> k" and cj: "chr (ws[i := v] ! j) \<noteq> []" and ck: "chr (ws[i := v] ! k) \<noteq> []"
      by simp_all
    show "site (ws[i := v] ! j) \<noteq> site (ws[i := v] ! k)"
    proof (cases "j = i")
      case True
      with jk have ki: "k \<noteq> i" by simp
      from True cj assms(2) have cv: "chr v \<noteq> []" by simp
      from ki ck have "chr (ws ! k) \<noteq> []" by simp
      with cv assms(5) kl ki have "site (ws ! k) \<noteq> site v" by blast
      with True ki assms(2) show ?thesis by auto
    next
      case ji: False
      from ji cj have cj': "chr (ws ! j) \<noteq> []" by simp
      show ?thesis
      proof (cases "k = i")
        case True
        from True ck assms(2) have cv: "chr v \<noteq> []" by simp
        with cj' assms(5) jl ji have "site (ws ! j) \<noteq> site v" by blast
        with True ji assms(2) show ?thesis by auto
      next
        case False
        with ck have "chr (ws ! k) \<noteq> []" by simp
        with cj' jk jl kl assms(1) have "site (ws ! j) \<noteq> site (ws ! k)"
          by (simp add: tracked_def)
        with False ji show ?thesis by simp
      qed
    qed
  qed
  from a b c show ?thesis by (simp only: tracked_def)
qed

lemma phase_same:
  assumes "phase win step st"
    and "win_n st' = win_n st" "win_i st' = win_i st" "step_i st' = step_i st"
    and "length (snps st') = length (snps st)"
    and "\<forall>k < win. dead (snps st' ! k) = dead (snps st ! k)
           \<and> (\<not> dead (snps st ! k) \<longrightarrow> ok (snps st' ! k) = ok (snps st ! k))"
  shows "phase win step st'"
proof -
  from assms(1) have cw: "win_i st < win" by (simp add: phase_def)
  from assms(1) show ?thesis
    unfolding phase_def assms(2-5) using cw assms(6) by auto
qed

lemma tomb_keeps:
  assumes "phase win step st" and "tracked seen (snps st)" and "set seen \<subseteq> set seen'"
  shows "phase win step (tombstone (end_tokens t (set_slot (\<lambda>s. s\<lparr>chr := c, pos := p, ok := - 1\<rparr>) st)))"
    and "tracked seen' (snps (tombstone (end_tokens t (set_slot (\<lambda>s. s\<lparr>chr := c, pos := p, ok := - 1\<rparr>) st))))"
    and "credit (tombstone (end_tokens t (set_slot (\<lambda>s. s\<lparr>chr := c, pos := p, ok := - 1\<rparr>) st))) = credit st"
proof -
  let ?fin = "tombstone (end_tokens t (set_slot (\<lambda>s. s\<lparr>chr := c, pos := p, ok := - 1\<rparr>) st))"
  let ?v = "\<lparr>pos = p, ok = - 1, geno = t_geno t, chr = []\<rparr>"
  from assms(1) have len: "length (snps st) = win" and cw: "win_i st < win"
    by (simp_all add: phase_def)
  from len cw have cl: "win_i st < length (snps st)" by simp
  have sn: "snps ?fin = (snps st)[win_i st := ?v]" by (rule tombstone_snps [OF cl])
  have dv: "dead ?v" by (simp add: dead_def)
  have dc: "dead (snps st ! win_i st)" by (rule phase_cursor_dead [OF assms(1)])
  show "phase win step ?fin"
  proof (rule phase_same [OF assms(1)])
    show "\<forall>k < win. dead (snps ?fin ! k) = dead (snps st ! k)
           \<and> (\<not> dead (snps st ! k) \<longrightarrow> ok (snps ?fin ! k) = ok (snps st ! k))"
      using dv dc cl len by (auto simp: sn nth_list_update)
  qed simp_all
  show "tracked seen' (snps ?fin)"
    unfolding sn by (rule tracked_update [OF assms(2) cl assms(3)]) (simp_all add: wf_slot_def)
  from owed_update [OF cl, of ?v] dv dc have "owed ((snps st)[win_i st := ?v]) = owed (snps st)"
    by (simp add: owed_single)
  then show "credit ?fin = credit st" by (simp add: credit_def sn)
qed

lemma written_keeps:
  assumes "phase win step st" and "tracked seen (snps st)" and "set seen \<subseteq> set seen'"
    and "l \<in> set seen'" and "locus l \<notin> locus ` set seen" and "l_chr l \<noteq> []"
    and "t_geno t = dosages l"
  shows "loaded win step (end_tokens t (set_slot (\<lambda>s. s\<lparr>chr := l_chr l, pos := l_pos l, ok := - 1\<rparr>) st))"
    and "tracked seen' (snps (end_tokens t (set_slot (\<lambda>s. s\<lparr>chr := l_chr l, pos := l_pos l, ok := - 1\<rparr>) st)))"
    and "credit (end_tokens t (set_slot (\<lambda>s. s\<lparr>chr := l_chr l, pos := l_pos l, ok := - 1\<rparr>) st))
           = credit st + {#locus l#}"
proof -
  let ?w = "end_tokens t (set_slot (\<lambda>s. s\<lparr>chr := l_chr l, pos := l_pos l, ok := - 1\<rparr>) st)"
  let ?v = "\<lparr>pos = l_pos l, ok = - 1, geno = t_geno t, chr = l_chr l\<rparr>"
  from assms(1) have len: "length (snps st) = win" and cw: "win_i st < win"
    by (simp_all add: phase_def)
  from len cw have cl: "win_i st < length (snps st)" by simp
  have sn: "snps ?w = (snps st)[win_i st := ?v]" by (rule written_snps [OF cl])
  have nth: "\<forall>k < win. snps ?w ! k = (if k = win_i st then ?v else snps st ! k)"
    using len by (simp add: sn nth_list_update)
  have lv: "\<not> dead ?v" using assms(6) by (simp add: dead_def)
  have dc: "dead (snps st ! win_i st)" by (rule phase_cursor_dead [OF assms(1)])
  show "loaded win step ?w"
    using assms(1,6) nth cw unfolding loaded_def phase_def by auto
  show "tracked seen' (snps ?w)"
    unfolding sn
  proof (rule tracked_update [OF assms(2) cl assms(3)])
    show "wf_slot ?v" by (simp add: wf_slot_def)
    have a: "\<exists>l' \<in> set seen'. site ?v = locus l' \<and> (geno ?v = [] \<or> geno ?v = dosages l')"
      using assms(4,7) by (intro bexI [of _ l]) (simp_all add: site_def locus_def)
    have b: "\<forall>k < length (snps st). k \<noteq> win_i st \<and> chr (snps st ! k) \<noteq> [] \<longrightarrow> site (snps st ! k) \<noteq> site ?v"
    proof (intro allI impI)
      fix k assume k: "k < length (snps st)" and h: "k \<noteq> win_i st \<and> chr (snps st ! k) \<noteq> []"
      with assms(2) obtain a where a: "a \<in> set seen" "site (snps st ! k) = locus a"
        by (auto simp: tracked_def)
      from a(1) have "locus a \<in> locus ` set seen" by (rule imageI)
      with assms(5) have "locus a \<noteq> locus l" by metis
      moreover have "site ?v = locus l" by (simp add: site_def locus_def)
      ultimately show "site (snps st ! k) \<noteq> site ?v" using a(2) by simp
    qed
    from a b show "chr ?v \<noteq> [] \<longrightarrow>
           (\<exists>l' \<in> set seen'. site ?v = locus l' \<and> (geno ?v = [] \<or> geno ?v = dosages l'))
           \<and> (\<forall>k < length (snps st). k \<noteq> win_i st \<and> chr (snps st ! k) \<noteq> [] \<longrightarrow> site (snps st ! k) \<noteq> site ?v)"
      by simp
  qed
  from owed_update [OF cl, of ?v] lv dc
  have "owed ((snps st)[win_i st := ?v]) = owed (snps st) + {#site ?v#}"
    by (simp add: owed_single)
  then show "credit ?w = credit st + {#locus l#}"
    by (simp add: credit_def sn site_def locus_def)
qed

lemma place_unfold:
  "place win step r2 st =
     (let A = (if eval_due win step st then (evaluate r2 st)\<lparr>step_i := 0\<rparr> else st);
          B = (if win_n A < win - 1 then A\<lparr>win_n := win_n A + 1\<rparr> else A);
          C = advance win (B\<lparr>step_i := step_i B + 1\<rparr>)
      in if win_n C = win - 1 then print_kept C else C)"
  by (simp add: place_def Let_def)

lemma not_pending_unkeep_dead:
  "wf_slot s \<Longrightarrow> dead s \<or> ok s \<noteq> - 1 \<Longrightarrow> dead (unkeep s)"
  by (auto simp: unkeep_def wf_slot_def dead_def)

lemma dead_unkeep_same: "dead s \<Longrightarrow> unkeep s = s"
  by (auto simp: unkeep_def dead_def)

lemma settled_not_pending: "wf_slot s \<Longrightarrow> dead (settle s) \<or> ok (settle s) \<noteq> - 1"
  by (auto simp: settle_def wf_slot_def dead_def)

lemma unkeep_pending: "ok (unkeep s) = - 1 \<longleftrightarrow> ok s = - 1"
  by (auto simp: unkeep_def)

lemma place_keeps:
  assumes ld: "loaded win step st"
    and wf: "\<forall>k < win. wf_slot (snps st ! k)"
    and calm: "\<forall>i < win_n st + 1. \<not> conflict (snps st) (win_n st + 1) (ind_n st) r2 i"
    and s1: "1 \<le> step" and sw: "step \<le> win"
  shows "phase win step (place win step r2 st)"
    and "credit (place win step r2 st) = credit st"
    and "length (snps (place win step r2 st)) = win"
    and "\<forall>k < win. chr (snps (place win step r2 st) ! k) = chr (snps st ! k)
           \<and> pos (snps (place win step r2 st) ! k) = pos (snps st ! k)
           \<and> geno (snps (place win step r2 st) ! k) = geno (snps st ! k)
           \<and> wf_slot (snps (place win step r2 st) ! k)"
    and "ind_n (place win step r2 st) = ind_n st"
proof -
  define e where "e = eval_due win step st"
  define A where "A = (if e then (evaluate r2 st)\<lparr>step_i := 0\<rparr> else st)"
  define wn where "wn = (if win_n st < win - 1 then win_n st + 1 else win_n st)"
  define B where "B = (if win_n A < win - 1 then A\<lparr>win_n := win_n A + 1\<rparr> else A)"
  define C where "C = advance win (B\<lparr>step_i := step_i B + 1\<rparr>)"
  define R where "R = (if win_n C = win - 1 then print_kept C else C)"
  have pl: "place win step r2 st = R"
    unfolding place_unfold Let_def R_def C_def B_def A_def e_def ..
  have nA: "win_n A = win_n st" by (simp add: A_def)
  have nB: "win_n B = wn" by (simp add: B_def wn_def nA)
  have sB: "snps B = snps A" "printed B = printed A" "win_i B = win_i A" "step_i B = step_i A"
    "ind_n B = ind_n A"
    by (simp_all add: B_def)
  from ld have len: "length (snps st) = win" and cw: "win_i st < win"
    and oc: "ok (snps st ! win_i st) = - 1" and cc: "chr (snps st ! win_i st) \<noteq> []"
    by (simp_all add: loaded_def)
  from cw have wpos: "0 < win" by simp
  from ld have wl: "win_n st + 1 \<le> length (snps st)" using len cw by (auto simp: loaded_def)
  \<comment> \<open>the slots after the optional evaluation\<close>
  have lenA: "length (snps A) = win"
    using estLD_length [OF wl] len by (simp add: A_def evaluate_def)
  have nthA: "\<forall>k < win. snps A ! k = (if e \<and> k < win_n st + 1 then settle (snps st ! k) else snps st ! k)"
    using estLD_calm [OF wl calm] len by (simp add: A_def evaluate_def)
  have wfA: "\<forall>k < win. wf_slot (snps A ! k)"
    using nthA wf by (simp add: settle_props)
  have "owed (snps A) = owed (snps st)"
    by (rule owed_cong) (use lenA len nthA wf in \<open>simp_all add: settle_props\<close>)
  moreover have "printed A = printed st" by (simp add: A_def)
  ultimately have crA: "credit A = credit st" by (simp add: credit_def)
  \<comment> \<open>the counters\<close>
  have cA: "win_i A = win_i st" by (simp add: A_def)
  have wiC: "win_i C = (win_i st + 1) mod win"
    using advance_win_i [of "B\<lparr>step_i := step_i B + 1\<rparr>" win] cw cA sB by (simp add: C_def)
  have wnC: "win_n C = wn" by (simp add: C_def nB)
  have siC: "step_i C = (if e then 1 else step_i st + 1)" by (simp add: C_def sB A_def)
  have snC: "snps C = snps A" by (simp add: C_def sB)
  have crC: "credit C = credit st" using crA by (simp add: C_def credit_def sB)
  from wpos have wiCw: "win_i C < win" by (simp add: wiC)
  have clC: "win_i C < length (snps C)" using wiCw lenA snC by simp
  \<comment> \<open>the result\<close>
  have wiR: "win_i R = win_i C" and wnR: "win_n R = wn" and siR: "step_i R = step_i C"
    by (simp_all add: R_def wnC)
  have lenR: "length (snps R) = win" using lenA snC by (simp add: R_def)
  have nthR: "\<forall>k < win. snps R ! k = (if wn = win - 1 \<and> k = win_i C then unkeep (snps A ! k) else snps A ! k)"
    using print_kept_snps [OF clC] lenA snC wnC by (simp add: R_def nth_list_update)
  have crR: "credit R = credit st"
    using print_kept_credit [OF clC] wfA wiCw snC crC by (simp add: R_def)
  have fields: "\<forall>k < win. chr (snps R ! k) = chr (snps st ! k) \<and> pos (snps R ! k) = pos (snps st ! k)
           \<and> geno (snps R ! k) = geno (snps st ! k) \<and> wf_slot (snps R ! k)"
    using nthR nthA wf by (simp add: unkeep_props settle_props)
  have indR: "ind_n R = ind_n st" by (simp add: R_def C_def sB A_def)
  \<comment> \<open>the phase\<close>
  have ph: "phase win step R"
  proof (cases e)
    case True
    \<comment> \<open>an evaluation: the window is full, nothing stays pending\<close>
    from True have full: "win_n st = win - 1"
      using ld cw by (auto simp: e_def eval_due_def loaded_def)
    then have wn1: "wn = win - 1" by (simp add: wn_def)
    from full wpos have rng: "\<forall>k < win. k < win_n st + 1" by simp
    have all: "\<forall>k < win. snps A ! k = settle (snps st ! k)" using nthA True rng by simp
    have np: "\<forall>k < win. dead (snps A ! k) \<or> ok (snps A ! k) \<noteq> - 1"
      using all wf by (simp add: settled_not_pending)
    have dc: "dead (snps R ! win_i C)"
      using nthR wiCw wn1 np wfA by (simp add: not_pending_unkeep_dead)
    have none: "\<forall>k < win. \<not> (\<not> dead (snps R ! k) \<and> ok (snps R ! k) = - 1)"
    proof (intro allI impI)
      fix k assume k: "k < win"
      show "\<not> (\<not> dead (snps R ! k) \<and> ok (snps R ! k) = - 1)"
      proof (cases "k = win_i C")
        case True
        with dc show ?thesis by simp
      next
        case False
        with nthR k have "snps R ! k = snps A ! k" by simp
        with np k show ?thesis by auto
      qed
    qed
    from True siC siR have si: "step_i R = 1" by simp
    show ?thesis
      unfolding phase_def using lenR wiR wiCw wnR wn1 si s1 dc none by auto
  next
    case False
    then have same: "\<forall>k < win. snps A ! k = snps st ! k" using nthA by simp
    from False siC siR have si: "step_i R = step_i st + 1" by simp
    from ld consider
        (fill) "win_n st = win_i st" "step_i st = win_i st"
               "\<forall>k < win. win_i st < k \<longrightarrow> dead (snps st ! k)"
      | (steady) "win_n st = win - 1" "1 \<le> step_i st" "step_i st \<le> step"
               "\<forall>k < win. k \<noteq> win_i st \<and> \<not> dead (snps st ! k) \<and> ok (snps st ! k) = - 1 \<longrightarrow>
                 (\<exists>d. 1 \<le> d \<and> d < step_i st \<and> (k + d) mod win = win_i st)"
      by (auto simp: loaded_def)
    then show ?thesis
    proof cases
      case fill
      \<comment> \<open>still filling: without an evaluation the cursor is not at the last slot\<close>
      have nl: "win_i st \<noteq> win - 1"
      proof
        assume l: "win_i st = win - 1"
        with fill have "win_n st = win - 1" "step_i st = win - 1" by simp_all
        with l sw have "eval_due win step st"
          by (cases "step = win") (auto simp: eval_due_def)
        with False show False by (simp add: e_def)
      qed
      with cw have lt: "win_i st + 1 < win" by simp
      then have wi: "win_i C = win_i st + 1" by (simp add: wiC)
      from fill lt have wn2: "wn = win_i st + 1" by (simp add: wn_def)
      have dn: "dead (snps st ! (win_i st + 1))" using fill(3) lt by simp
      have rs: "\<forall>k < win. snps R ! k = snps st ! k"
      proof (intro allI impI)
        fix k assume k: "k < win"
        show "snps R ! k = snps st ! k"
        proof (cases "wn = win - 1 \<and> k = win_i C")
          case True
          with nthR k same wi dn show ?thesis by (simp add: dead_unkeep_same)
        next
          case False
          with nthR k same show ?thesis by auto
        qed
      qed
      have "\<forall>k < win. win_i R \<le> k \<longrightarrow> dead (snps R ! k)"
        using rs fill(3) wiR wi by simp
      then show ?thesis
        unfolding phase_def using lenR wiR wiCw wnR wn2 wi si fill(2) by auto
    next
      case steady
      from False steady(1) have ss: "step_i st < step"
        by (auto simp: e_def eval_due_def)
      with steady(2) sw have w2: "1 < win" by simp
      from steady(1) have wn1: "wn = win - 1" by (simp add: wn_def)
      have ne: "win_i C \<noteq> win_i st"
        using ring_apart [OF cw _ w2] by (simp add: wiC)
      have np: "dead (snps st ! win_i C) \<or> ok (snps st ! win_i C) \<noteq> - 1"
      proof (rule ccontr)
        assume "\<not> (dead (snps st ! win_i C) \<or> ok (snps st ! win_i C) \<noteq> - 1)"
        with steady(4) wiCw ne obtain d where d: "1 \<le> d" "d < step_i st" "(win_i C + d) mod win = win_i st"
          by blast
        have "(win_i C + d) mod win = ((win_i st + 1) mod win + d) mod win"
          by (simp only: wiC)
        also have "\<dots> = (win_i st + 1 + d) mod win" by (rule mod_add_left_eq)
        also have "\<dots> = (win_i st + (d + 1)) mod win" by (simp add: ac_simps)
        finally have "(win_i C + d) mod win = (win_i st + (d + 1)) mod win" .
        with d(3) have "(win_i st + (d + 1)) mod win = win_i st" by simp
        moreover from d ss sw have "0 < d + 1" "d + 1 < win" by simp_all
        ultimately show False using ring_apart [OF cw, of "d + 1"] by simp
      qed
      have dc: "dead (snps R ! win_i C)"
        using nthR wiCw wn1 same np wf by (simp add: not_pending_unkeep_dead)
      have pend: "\<forall>k < win. \<not> dead (snps R ! k) \<and> ok (snps R ! k) = - 1 \<longrightarrow>
                 (\<exists>d. 1 \<le> d \<and> d < step_i st + 1 \<and> (k + d) mod win = win_i C)"
      proof (intro allI impI)
        fix k assume k: "k < win" and h: "\<not> dead (snps R ! k) \<and> ok (snps R ! k) = - 1"
        with dc have kc: "k \<noteq> win_i C" by auto
        with nthR k same have rk: "snps R ! k = snps st ! k" by simp
        show "\<exists>d. 1 \<le> d \<and> d < step_i st + 1 \<and> (k + d) mod win = win_i C"
        proof (cases "k = win_i st")
          case True
          with steady(2) have "1 \<le> (1::nat) \<and> 1 < step_i st + 1 \<and> (k + 1) mod win = win_i C"
            by (simp add: wiC)
          then show ?thesis by blast
        next
          case False
          with steady(4) k h rk obtain d where d: "1 \<le> d" "d < step_i st" "(k + d) mod win = win_i st"
            by auto
          have "((k + d) mod win + 1) mod win = (k + d + 1) mod win" by (rule mod_add_left_eq)
          then have "(k + (d + 1)) mod win = ((k + d) mod win + 1) mod win"
            by (simp add: add.assoc)
          with d(3) have "(k + (d + 1)) mod win = win_i C" by (simp add: wiC)
          with d(1,2) have "1 \<le> d + 1 \<and> d + 1 < step_i st + 1 \<and> (k + (d + 1)) mod win = win_i C"
            by simp
          then show ?thesis by blast
        qed
      qed
      from ss have "step_i st + 1 \<le> step" by simp
      then show ?thesis
        unfolding phase_def using lenR wiR wiCw wnR wn1 si dc pend by auto
    qed
  qed
  show "phase win step (place win step r2 st)" using ph by (simp add: pl)
  show "credit (place win step r2 st) = credit st" using crR by (simp add: pl)
  show "length (snps (place win step r2 st)) = win" using lenR by (simp add: pl)
  show "\<forall>k < win. chr (snps (place win step r2 st) ! k) = chr (snps st ! k)
           \<and> pos (snps (place win step r2 st) ! k) = pos (snps st ! k)
           \<and> geno (snps (place win step r2 st) ! k) = geno (snps st ! k)
           \<and> wf_slot (snps (place win step r2 st) ! k)"
    using fields by (simp add: pl)
  show "ind_n (place win step r2 st) = ind_n st" using indR by (simp add: pl)
qed

lemma clean_row_tally:
  assumes "clean_row N l"
  shows "read_haps (l_chr l) (l_pos l) (l_haps l) zero_tally = Inr (tally_of l)"
    and "length (dosages l) = N"
proof -
  from assms have "\<not> (\<exists>e. read_haps (l_chr l) (l_pos l) (l_haps l) zero_tally = Inl e)"
    by (simp add: read_haps_error_iff clean_row_def)
  then obtain t where t: "read_haps (l_chr l) (l_pos l) (l_haps l) zero_tally = Inr t"
    by (cases "read_haps (l_chr l) (l_pos l) (l_haps l) zero_tally") auto
  then have e: "tally_of l = t" by (simp add: tally_of_def)
  with t show "read_haps (l_chr l) (l_pos l) (l_haps l) zero_tally = Inr (tally_of l)" by simp
  from read_haps_tally [OF t] e assms show "length (dosages l) = N"
    by (simp add: dosages_def zero_tally_def clean_row_def)
qed

lemma init_inv: "0 < win \<Longrightarrow> run_inv win step mis maf N [] (init_state win)"
  by (simp add: run_inv_def phase_def tracked_def init_state_def blank_def dead_def wf_slot_def
      credit_def owed_def)

lemma row_keeps:
  assumes inv: "run_inv win step mis maf N seen st"
    and row: "clean_row N l" and N: "0 < N"
    and new: "locus l \<notin> locus ` set seen"
    and sub: "set (seen @ [l]) \<subseteq> set ls" and q: "quiet r2 N ls"
    and s1: "1 \<le> step" and sw: "step \<le> win"
  shows "\<exists>st'. read_line win step mis maf r2 l st = Inr st' \<and> run_inv win step mis maf N (seen @ [l]) st'"
proof -
  let ?t = "tally_of l"
  let ?st1 = "chr_change win r2 (l_chr l) (set_slot (\<lambda>s. s\<lparr>geno := []\<rparr>) st)"
  let ?st2 = "set_slot (\<lambda>s. s\<lparr>chr := l_chr l, pos := l_pos l, ok := - 1\<rparr>) ?st1"
  let ?st3 = "end_tokens ?t ?st2"
  from inv have ph: "phase win step st" and tr: "tracked seen (snps st)"
    and ind: "ind_n st = 0 \<or> ind_n st = N"
    and cr: "credit st = mset (map locus (filter (passes mis maf N) seen))"
    by (simp_all add: run_inv_def)
  from sub have sub0: "set seen \<subseteq> set ls" and sub1: "set seen \<subseteq> set (seen @ [l])"
    and lin: "l \<in> set (seen @ [l])" by auto
  note rt = clean_row_tally [OF row]
  from row have cne: "l_chr l \<noteq> []" by (simp add: clean_row_def)
  note bk = begin_keeps [OF ph tr sub0 q ind, of "l_chr l"]
  have br: "begin_row win r2 l st = ?st2" by (simp add: begin_row_def)
  have i3: "ind_n ?st3 = N" using bk(4) ind rt(2) by (auto simp: dosages_def)
  have rl: "read_line win step mis maf r2 l st =
      (case prefilter mis maf ?t N of
         DropMis \<Rightarrow> Inr (tombstone ?st3) | DropMaf \<Rightarrow> Inr (tombstone ?st3)
       | Pass \<Rightarrow> Inr (place win step r2 ?st3))"
    unfolding read_line_def Let_def br by (simp only: rt(1) sum.case i3)
  show ?thesis
  proof (cases "prefilter mis maf ?t N = Pass")
    case False
    then have np: "\<not> passes mis maf N l" by (simp add: passes_def)
    from False have r: "read_line win step mis maf r2 l st = Inr (tombstone ?st3)"
      by (cases "prefilter mis maf ?t N") (simp_all add: rl)
    note tk = tomb_keeps [OF bk(1,2) sub1, where t = ?t and c = "l_chr l" and p = "l_pos l"]
    have "ind_n (tombstone ?st3) = N" using i3 by simp
    with tk bk(3) cr np have "run_inv win step mis maf N (seen @ [l]) (tombstone ?st3)"
      by (simp add: run_inv_def)
    with r show ?thesis by blast
  next
    case True
    then have p: "passes mis maf N l" by (simp add: passes_def)
    from True have r: "read_line win step mis maf r2 l st = Inr (place win step r2 ?st3)"
      by (simp add: rl)
    have dg: "t_geno ?t = dosages l" by (simp add: dosages_def)
    note wk = written_keeps [OF bk(1,2) sub1 lin new cne dg]
    from wk(1) have len3: "length (snps ?st3) = win" and wl3: "win_n ?st3 + 1 \<le> length (snps ?st3)"
      by (auto simp: loaded_def)
    have wf3: "\<forall>k < win. wf_slot (snps ?st3 ! k)"
      using wk(2) len3 by (simp add: tracked_def)
    have calm: "\<forall>i < win_n ?st3 + 1. \<not> conflict (snps ?st3) (win_n ?st3 + 1) (ind_n ?st3) r2 i"
      by (rule tracked_calm [OF wk(2) sub q _ wl3]) (rule disjI2, rule i3)
    note pk = place_keeps [OF wk(1) wf3 calm s1 sw]
    have tr': "tracked (seen @ [l]) (snps (place win step r2 ?st3))"
      by (rule tracked_change [OF wk(2) _ subset_refl]) (use pk(3,4) len3 in simp_all)
    have "credit (place win step r2 ?st3) = mset (map locus (filter (passes mis maf N) (seen @ [l])))"
      using pk(2) wk(3) bk(3) cr p by simp
    with pk(1,5) tr' i3 have "run_inv win step mis maf N (seen @ [l]) (place win step r2 ?st3)"
      by (simp add: run_inv_def)
    with r show ?thesis by blast
  qed
qed

lemma rows_keep:
  assumes q: "quiet r2 N ls" and N: "0 < N" and s1: "1 \<le> step" and sw: "step \<le> win"
  shows "run_inv win step mis maf N seen st \<Longrightarrow> \<forall>l \<in> set rest. clean_row N l \<Longrightarrow>
     distinct (map locus (seen @ rest)) \<Longrightarrow> set (seen @ rest) \<subseteq> set ls \<Longrightarrow>
     \<exists>st'. read_lines win step mis maf r2 rest st = Inr st'
           \<and> run_inv win step mis maf N (seen @ rest) st'"
proof (induction rest arbitrary: seen st)
  case Nil
  then show ?case by simp
next
  case (Cons l rest)
  from Cons.prems(2) have row: "clean_row N l" by simp
  from Cons.prems(3) have new: "locus l \<notin> locus ` set seen" by auto
  from Cons.prems(4) have sub: "set (seen @ [l]) \<subseteq> set ls" by auto
  from row_keeps [OF Cons.prems(1) row N new sub q s1 sw]
  obtain st1 where r1: "read_line win step mis maf r2 l st = Inr st1"
    and i1: "run_inv win step mis maf N (seen @ [l]) st1" by blast
  from Cons.prems(2) have rows: "\<forall>l \<in> set rest. clean_row N l" by simp
  from Cons.prems(3) have d: "distinct (map locus ((seen @ [l]) @ rest))" by simp
  from Cons.prems(4) have s: "set ((seen @ [l]) @ rest) \<subseteq> set ls" by simp
  from Cons.IH [OF i1 rows d s] r1 show ?case by simp
qed

lemma quiet_run:
  assumes "1 \<le> step" and "step \<le> win" and "0 < N" and "ls \<noteq> []"
    and "\<forall>l \<in> set ls. clean_row N l" and "distinct (map locus ls)" and "quiet r2 N ls"
  shows "\<exists>st. readVcf win step mis maf r2 ls = Inr st
           \<and> mset (printed st) = mset (map locus (filter (passes mis maf N) ls))"
proof -
  from assms(1,2) have wpos: "0 < win" by simp
  from rows_keep [OF assms(7,3,1,2) init_inv [OF wpos], of ls mis maf] assms(5,6)
  obtain st where r: "read_lines win step mis maf r2 ls (init_state win) = Inr st"
    and i: "run_inv win step mis maf N ls st" by auto
  from i have ph: "phase win step st" and tr: "tracked ls (snps st)"
    and ind: "ind_n st = 0 \<or> ind_n st = N"
    and cr: "credit st = mset (map locus (filter (passes mis maf N) ls))"
    by (simp_all add: run_inv_def)
  note dr = drain [OF ph tr subset_refl assms(7) ind]
  let ?f = "flush win (evaluate r2 st)"
  from dr(1,2) have "\<forall>s \<in> set (snps ?f). dead s" by (auto simp: in_set_conv_nth)
  then have "owed (snps ?f) = {#}" by (rule owed_all_dead)
  with dr(4) cr have "mset (printed ?f) = mset (map locus (filter (passes mis maf N) ls))"
    by (simp add: credit_def)
  moreover from r assms(4) have "readVcf win step mis maf r2 ls = Inr ?f"
    by (simp add: readVcf_def)
  ultimately show ?thesis by blast
qed

lemma scan_calls_same_chr:
  "p \<in> set (estLD_scan_calls ws win n r2 i j) \<Longrightarrow>
   fst p = i \<and> j \<le> snd p \<and> snd p < win \<and> chr (ws ! snd p) \<noteq> [] \<and> chr (ws ! i) = chr (ws ! snd p)"
proof (induction ws win n r2 i j rule: estLD_scan_calls.induct)
  case (1 ws win n r2 i j)
  show ?case
  proof (cases "j < win")
    case False
    with "1.prems" show ?thesis by (simp add: estLD_scan_calls.simps [of ws win n r2 i j])
  next
    case lt: True
    show ?thesis
    proof (cases "chr (ws ! j) = []")
      case True
      with lt "1.prems" have "p \<in> set (estLD_scan_calls ws win n r2 i (Suc j))"
        by (simp add: estLD_scan_calls.simps [of ws win n r2 i j])
      from "1.IH"(1) [OF lt True this] show ?thesis by auto
    next
      case ne: False
      show ?thesis
      proof (cases "chr (ws ! i) \<noteq> chr (ws ! j)")
        case True
        with lt ne "1.prems" have "p \<in> set (estLD_scan_calls ws win n r2 i (Suc j))"
          by (simp add: estLD_scan_calls.simps [of ws win n r2 i j])
        from "1.IH"(2) [OF lt ne True this] show ?thesis by auto
      next
        case eq: False
        show ?thesis
        proof (cases "dbl_gt (estR2 (geno (ws ! i)) (geno (ws ! j)) n) (Fin r2)")
          case True
          with lt ne eq "1.prems" have "p = (i, j)"
            by (simp add: estLD_scan_calls.simps [of ws win n r2 i j])
          with lt ne eq show ?thesis by simp
        next
          case False
          with lt ne eq "1.prems" have "p = (i, j) \<or> p \<in> set (estLD_scan_calls ws win n r2 i (Suc j))"
            by (simp add: estLD_scan_calls.simps [of ws win n r2 i j])
          then show ?thesis
          proof
            assume "p = (i, j)"
            with lt ne eq show ?thesis by simp
          next
            assume "p \<in> set (estLD_scan_calls ws win n r2 i (Suc j))"
            from "1.IH"(3) [OF lt ne eq False this] show ?thesis by auto
          qed
        qed
      qed
    qed
  qed
qed

lemma calls_fold:
  assumes "win \<le> length ws"
  shows "k \<le> win \<Longrightarrow>
     fst (fold (\<lambda>i (s, tr). (estLD_site win n r2 i s, tr @ estLD_site_calls win n r2 i s))
            [0..<k] (ws, [])) = fold (estLD_site win n r2) [0..<k] ws
     \<and> (\<forall>p \<in> set (snd (fold (\<lambda>i (s, tr). (estLD_site win n r2 i s, tr @ estLD_site_calls win n r2 i s))
            [0..<k] (ws, []))).
          fst p < snd p \<and> snd p < win \<and> chr (ws ! fst p) \<noteq> [] \<and> chr (ws ! fst p) = chr (ws ! snd p))"
proof (induction k)
  case 0
  show ?case by simp
next
  case (Suc k)
  let ?F = "\<lambda>i (s, tr). (estLD_site win n r2 i s, tr @ estLD_site_calls win n r2 i s)"
  obtain s tr where f: "fold ?F [0..<k] (ws, []) = (s, tr)"
    by (cases "fold ?F [0..<k] (ws, [])")
  from Suc have kw: "k < win" and kl: "k \<le> win" by simp_all
  from Suc.IH [OF kl] have s_def: "s = fold (estLD_site win n r2) [0..<k] ws"
    and old: "\<forall>p \<in> set tr. fst p < snd p \<and> snd p < win \<and> chr (ws ! fst p) \<noteq> []
                \<and> chr (ws ! fst p) = chr (ws ! snd p)"
    unfolding f fst_conv snd_conv by blast+
  from estLD_fold_char [OF assms kl, of n r2] have sd: "same_data s ws" by (simp add: s_def)
  have new: "\<forall>p \<in> set (estLD_site_calls win n r2 k s).
        fst p < snd p \<and> snd p < win \<and> chr (ws ! fst p) \<noteq> [] \<and> chr (ws ! fst p) = chr (ws ! snd p)"
  proof
    fix p assume p: "p \<in> set (estLD_site_calls win n r2 k s)"
    then have ck: "chr (s ! k) \<noteq> []" and "p \<in> set (estLD_scan_calls s win n r2 k (Suc k))"
      by (auto simp: estLD_site_calls_def split: if_splits)
    from scan_calls_same_chr [OF this(2)]
    have q: "fst p = k" "Suc k \<le> snd p" "snd p < win" "chr (s ! k) = chr (s ! snd p)" by simp_all
    from sd assms kw q(3) have "chr (s ! k) = chr (ws ! k)" "chr (s ! snd p) = chr (ws ! snd p)"
      by (simp_all add: same_data_def)
    with q ck show "fst p < snd p \<and> snd p < win \<and> chr (ws ! fst p) \<noteq> [] \<and> chr (ws ! fst p) = chr (ws ! snd p)"
      by simp
  qed
  have e1: "fst (fold ?F [0..<Suc k] (ws, [])) = estLD_site win n r2 k s" by (simp add: f)
  have e2: "snd (fold ?F [0..<Suc k] (ws, [])) = tr @ estLD_site_calls win n r2 k s"
    by (simp add: f)
  have e3: "fold (estLD_site win n r2) [0..<Suc k] ws = estLD_site win n r2 k s"
    by (simp add: s_def)
  from old new have "\<forall>p \<in> set (tr @ estLD_site_calls win n r2 k s).
      fst p < snd p \<and> snd p < win \<and> chr (ws ! fst p) \<noteq> [] \<and> chr (ws ! fst p) = chr (ws ! snd p)"
    by auto
  then show ?case unfolding e1 e2 e3 by blast
qed

lemma estLD_calls_same_chr:
  assumes "win \<le> length ws" and "p \<in> set (estLD_calls ws win n r2)"
  shows "fst p < snd p \<and> snd p < win \<and> chr (ws ! fst p) \<noteq> [] \<and> chr (ws ! fst p) = chr (ws ! snd p)"
proof -
  from calls_fold [OF assms(1), of win n r2]
  have "\<forall>p \<in> set (estLD_calls ws win n r2).
      fst p < snd p \<and> snd p < win \<and> chr (ws ! fst p) \<noteq> [] \<and> chr (ws ! fst p) = chr (ws ! snd p)"
    unfolding estLD_calls_def by blast
  with assms(2) show ?thesis by blast
qed

text \<open>
  Claim C9. Every call of \<^verbatim>\<open>estR2\<close> that \<^verbatim>\<open>estLD\<close> makes is on two active slots of one
  chromosome. At a row of another chromosome than slot 0 the driver evaluates and flushes
  the window and resets the counters before it writes the row. A run over rows with
  \<open>N\<close> well-formed tokens each, distinct loci and no pair above the threshold within a
  chromosome prints exactly the rows that pass the filters, whatever the correlations
  across chromosomes are.
\<close>

theorem chromosomes_are_isolated:
  "(win \<le> length ws \<longrightarrow>
      (\<forall>p \<in> set (estLD_calls ws win n r2).
          chr (ws ! fst p) = chr (ws ! snd p) \<and> chr (ws ! fst p) \<noteq> []))
   \<and> (0 < win_n st \<and> chr (snps st ! 0) \<noteq> l_chr l \<longrightarrow>
        begin_row win r2 l st =
          set_slot (\<lambda>s. s\<lparr>chr := l_chr l, pos := l_pos l, ok := - 1\<rparr>)
            (set_slot (\<lambda>s. s\<lparr>geno := []\<rparr>)
               ((flush win (evaluate r2 (set_slot (\<lambda>s. s\<lparr>geno := []\<rparr>) st)))
                  \<lparr>win_n := 0, win_i := 0, step_i := 0\<rparr>))
        \<and> win_n (begin_row win r2 l st) = 0 \<and> win_i (begin_row win r2 l st) = 0
        \<and> step_i (begin_row win r2 l st) = 0)
   \<and> (1 \<le> step \<and> step \<le> win \<and> 0 < N \<and> ls \<noteq> [] \<and> (\<forall>l \<in> set ls. clean_row N l)
        \<and> distinct (map locus ls) \<and> quiet r2 N ls \<longrightarrow>
        (\<exists>st'. readVcf win step mis maf r2 ls = Inr st')
        \<and> mset (kept (readVcf win step mis maf r2 ls))
            = mset (map locus (filter (passes mis maf N) ls)))"
proof -
  have a: "win \<le> length ws \<longrightarrow>
      (\<forall>p \<in> set (estLD_calls ws win n r2).
          chr (ws ! fst p) = chr (ws ! snd p) \<and> chr (ws ! fst p) \<noteq> [])"
    using estLD_calls_same_chr [of win ws _ n r2] by blast
  have b: "0 < win_n st \<and> chr (snps st ! 0) \<noteq> l_chr l \<longrightarrow>
        begin_row win r2 l st =
          set_slot (\<lambda>s. s\<lparr>chr := l_chr l, pos := l_pos l, ok := - 1\<rparr>)
            (set_slot (\<lambda>s. s\<lparr>geno := []\<rparr>)
               ((flush win (evaluate r2 (set_slot (\<lambda>s. s\<lparr>geno := []\<rparr>) st)))
                  \<lparr>win_n := 0, win_i := 0, step_i := 0\<rparr>))
        \<and> win_n (begin_row win r2 l st) = 0 \<and> win_i (begin_row win r2 l st) = 0
        \<and> step_i (begin_row win r2 l st) = 0"
  proof
    assume h: "0 < win_n st \<and> chr (snps st ! 0) \<noteq> l_chr l"
    then have c: "0 < win_n (set_slot (\<lambda>s. s\<lparr>geno := []\<rparr>) st)
        \<and> chr (snps (set_slot (\<lambda>s. s\<lparr>geno := []\<rparr>) st) ! 0) \<noteq> l_chr l"
      by (simp add: chr_zeroed_slot)
    have e: "begin_row win r2 l st =
          set_slot (\<lambda>s. s\<lparr>chr := l_chr l, pos := l_pos l, ok := - 1\<rparr>)
            (set_slot (\<lambda>s. s\<lparr>geno := []\<rparr>)
               ((flush win (evaluate r2 (set_slot (\<lambda>s. s\<lparr>geno := []\<rparr>) st)))
                  \<lparr>win_n := 0, win_i := 0, step_i := 0\<rparr>))"
      unfolding begin_row_def chr_change_def using c by simp
    from begin_row_counters [of win r2 l st] h
    have "win_n (begin_row win r2 l st) = 0 \<and> win_i (begin_row win r2 l st) = 0
        \<and> step_i (begin_row win r2 l st) = 0" by simp
    with e show "begin_row win r2 l st =
          set_slot (\<lambda>s. s\<lparr>chr := l_chr l, pos := l_pos l, ok := - 1\<rparr>)
            (set_slot (\<lambda>s. s\<lparr>geno := []\<rparr>)
               ((flush win (evaluate r2 (set_slot (\<lambda>s. s\<lparr>geno := []\<rparr>) st)))
                  \<lparr>win_n := 0, win_i := 0, step_i := 0\<rparr>))
        \<and> win_n (begin_row win r2 l st) = 0 \<and> win_i (begin_row win r2 l st) = 0
        \<and> step_i (begin_row win r2 l st) = 0" by blast
  qed
  have c: "1 \<le> step \<and> step \<le> win \<and> 0 < N \<and> ls \<noteq> [] \<and> (\<forall>l \<in> set ls. clean_row N l)
        \<and> distinct (map locus ls) \<and> quiet r2 N ls \<longrightarrow>
        (\<exists>st'. readVcf win step mis maf r2 ls = Inr st')
        \<and> mset (kept (readVcf win step mis maf r2 ls))
            = mset (map locus (filter (passes mis maf N) ls))"
  proof
    assume h: "1 \<le> step \<and> step \<le> win \<and> 0 < N \<and> ls \<noteq> [] \<and> (\<forall>l \<in> set ls. clean_row N l)
        \<and> distinct (map locus ls) \<and> quiet r2 N ls"
    then have h1: "1 \<le> step" and h2: "step \<le> win" and h3: "0 < N" and h4: "ls \<noteq> []"
      and h5: "\<forall>l \<in> set ls. clean_row N l" and h6: "distinct (map locus ls)"
      and h7: "quiet r2 N ls" by blast+
    from quiet_run [OF h1 h2 h3 h4 h5 h6 h7, of mis maf]
    obtain st' where r: "readVcf win step mis maf r2 ls = Inr st'"
      and m: "mset (printed st') = mset (map locus (filter (passes mis maf N) ls))" by blast
    from r m show "(\<exists>st'. readVcf win step mis maf r2 ls = Inr st')
        \<and> mset (kept (readVcf win step mis maf r2 ls))
            = mset (map locus (filter (passes mis maf N) ls))"
      by (simp add: kept_def)
  qed
  from a b c show ?thesis by blast
qed

lemmas row_eval =
  tally_of_def dosages_def zero_tally_def read_hap_def ploidy_stop_def read_alleles.simps
  locus_def

lemmas iso_defs = iso_a_def iso_b_def iso_c_def iso_d_def

lemma iso_dosages:
  "dosages iso_a = [0, 2, 0, 2]" "dosages iso_b = [0, 0, 2, 2]"
  "dosages iso_c = [0, 2, 0, 2]" "dosages iso_d = [0, 0, 2, 2]"
  by (simp_all add: iso_defs row_eval)

lemma iso_fields:
  "l_chr iso_a = ''1''" "l_chr iso_b = ''1''" "l_chr iso_c = ''2''" "l_chr iso_d = ''2''"
  "l_pos iso_a = 10" "l_pos iso_b = 20" "l_pos iso_c = 10" "l_pos iso_d = 20"
  by (simp_all add: iso_defs)

lemma iso_r2:
  "\<not> dbl_gt (estR2 [0, 2, 0, 2] [0, 0, 2, 2] 4) (Fin (1 / 10))"
  "\<not> dbl_gt (estR2 [0, 0, 2, 2] [0, 2, 0, 2] 4) (Fin (1 / 10))"
  "dbl_gt (estR2 [0, 2, 0, 2] [0, 2, 0, 2] 4) (Fin (1 / 10))"
  by (simp_all add: r2_eval)

lemma iso_quiet: "quiet (1 / 10) 4 iso_rows"
  unfolding quiet_def iso_rows_def by (simp add: iso_fields iso_dosages iso_r2)

lemma iso_tokens: "\<not> bad_token ''0/0''" "\<not> bad_token ''1/1''"
  by (simp_all add: token_eval)

lemma iso_clean: "\<forall>l \<in> set iso_rows. clean_row 4 l"
  by (simp add: iso_rows_def iso_defs clean_row_def iso_tokens)

lemma iso_tally:
  "tally_of iso_a = \<lparr>t_geno = [0, 2, 0, 2], mis_i = 0, alt_i = 4, hap_i = 8\<rparr>"
  "tally_of iso_b = \<lparr>t_geno = [0, 0, 2, 2], mis_i = 0, alt_i = 4, hap_i = 8\<rparr>"
  "tally_of iso_c = \<lparr>t_geno = [0, 2, 0, 2], mis_i = 0, alt_i = 4, hap_i = 8\<rparr>"
  "tally_of iso_d = \<lparr>t_geno = [0, 0, 2, 2], mis_i = 0, alt_i = 4, hap_i = 8\<rparr>"
  by (simp_all add: iso_defs row_eval)

lemma iso_passes: "filter (passes (3 / 5) (1 / 20) 4) iso_rows = iso_rows"
  by (simp add: iso_rows_def passes_def iso_tally prefilter_def dbl_lt_def)

lemma mixed_calls: "estLD_calls mixed 3 3 (1 / 10) = [(0, 2)]"
  by (simp add: estLD_calls_def estLD_site_calls_def estLD_scan_calls.simps estLD_site_def
      estLD_scan.simps mixed_def r2_eval Let_def)

theorem chromosomes_are_isolated_witness:
  "3 \<le> length mixed \<and> estLD_calls mixed 3 3 (1 / 10) = [(0, 2)]
   \<and> chr (mixed ! 0) = chr (mixed ! 2) \<and> chr (mixed ! 0) \<noteq> chr (mixed ! 1)
   \<and> (1 :: nat) \<le> 1 \<and> (1 :: nat) \<le> 3 \<and> (0 :: nat) < 4 \<and> iso_rows \<noteq> []
   \<and> clean_row 4 iso_a \<and> clean_row 4 iso_b \<and> clean_row 4 iso_c \<and> clean_row 4 iso_d
   \<and> distinct (map locus iso_rows) \<and> quiet (1 / 10) 4 iso_rows
   \<and> dbl_gt (estR2 (dosages iso_a) (dosages iso_c) 4) (Fin (1 / 10))
   \<and> mset (kept (readVcf 3 1 (3 / 5) (1 / 20) (1 / 10) iso_rows))
       = {#(''1'', 10), (''1'', 20), (''2'', 10), (''2'', 20)#}"
proof -
  have l: "3 \<le> length mixed" by (simp add: mixed_def)
  have ch: "chr (mixed ! 0) = chr (mixed ! 2) \<and> chr (mixed ! 0) \<noteq> chr (mixed ! 1)"
    by (simp add: mixed_def)
  have ne: "iso_rows \<noteq> []" by (simp add: iso_rows_def)
  have d: "distinct (map locus iso_rows)" by (simp add: iso_rows_def locus_def iso_fields)
  have cl: "clean_row 4 iso_a \<and> clean_row 4 iso_b \<and> clean_row 4 iso_c \<and> clean_row 4 iso_d"
    using iso_clean by (simp add: iso_rows_def)
  have x: "dbl_gt (estR2 (dosages iso_a) (dosages iso_c) 4) (Fin (1 / 10))"
    by (simp add: iso_dosages iso_r2)
  have hyp: "(1 :: nat) \<le> 1 \<and> (1 :: nat) \<le> 3 \<and> (0 :: nat) < 4 \<and> iso_rows \<noteq> []
      \<and> (\<forall>l \<in> set iso_rows. clean_row 4 l) \<and> distinct (map locus iso_rows)
      \<and> quiet (1 / 10) 4 iso_rows"
    using ne iso_clean d iso_quiet by simp
  from chromosomes_are_isolated [of 3 mixed 3 "1 / 10" _ _ 1 4 iso_rows "3 / 5" "1 / 20"] hyp
  have "mset (kept (readVcf 3 1 (3 / 5) (1 / 20) (1 / 10) iso_rows))
      = mset (map locus (filter (passes (3 / 5) (1 / 20) 4) iso_rows))"
    by blast
  also have "\<dots> = {#(''1'', 10), (''1'', 20), (''2'', 10), (''2'', 20)#}"
    by (simp add: iso_passes) (simp add: iso_rows_def locus_def iso_fields)
  finally have k: "mset (kept (readVcf 3 1 (3 / 5) (1 / 20) (1 / 10) iso_rows))
      = {#(''1'', 10), (''1'', 20), (''2'', 10), (''2'', 20)#}" .
  have nums: "(1 :: nat) \<le> 1 \<and> (1 :: nat) \<le> 3 \<and> (0 :: nat) < 4" by simp
  from l mixed_calls ch nums ne cl d iso_quiet x k show ?thesis by blast
qed

end
